theory Spec2Isabelle
  imports Main "HOL-Library.Multiset"
begin

section \<open>Strings and paths as the script uses them\<close>

text \<open>
  The script \<^verbatim>\<open>shard_events.py\<close> works on \<^verbatim>\<open>pathlib.Path\<close> values and Python strings.
  A string is a list of bytes; a path is the list of its \<^verbatim>\<open>parts\<close>, an absolute POSIX
  path starting with the part \<^verbatim>\<open>/\<close>.
\<close>

type_synonym path = "string list"

text \<open>\<^verbatim>\<open>str.lower\<close>: only the letters A to Z change (no other character lowers to an ASCII letter
  that occurs in a supported suffix).\<close>

definition lower_char :: "char \<Rightarrow> char" where
  "lower_char c =
     (let n = (of_char c :: nat) in if 65 \<le> n \<and> n \<le> 90 then char_of (n + 32) else c)"

definition lower :: "string \<Rightarrow> string" where
  "lower s = map lower_char s"

text \<open>\<^verbatim>\<open>str.rfind(c)\<close>: the last index of the character, or -1.\<close>

fun rfind :: "char \<Rightarrow> string \<Rightarrow> int" where
  "rfind c [] = -1"
| "rfind c (x # xs) =
     (let r = rfind c xs in if 0 \<le> r then r + 1 else if x = c then 0 else -1)"

text \<open>\<^verbatim>\<open>str.split(c)\<close> with a one-character separator: never the empty list.\<close>

fun str_split :: "char \<Rightarrow> string \<Rightarrow> string list" where
  "str_split c [] = [[]]"
| "str_split c (x # xs) =
     (if x = c then [] # str_split c xs
      else (case str_split c xs of [] \<Rightarrow> [[x]] | y # ys \<Rightarrow> (x # y) # ys))"

text \<open>\<^verbatim>\<open>sep.join(parts)\<close>.\<close>

fun str_join :: "string \<Rightarrow> string list \<Rightarrow> string" where
  "str_join sep [] = []"
| "str_join sep [x] = x"
| "str_join sep (x # y # ys) = x @ sep @ str_join sep (y # ys)"

text \<open>\<^verbatim>\<open>str.endswith\<close>; a glob pattern \<^verbatim>\<open>*.fmt\<close> matches a file name exactly when the name
  ends with \<^verbatim>\<open>.fmt\<close> (pathlib's glob also matches names that start with a dot).\<close>

definition endswith :: "string \<Rightarrow> string \<Rightarrow> bool" where
  "endswith s suf = (length suf \<le> length s \<and> drop (length s - length suf) s = suf)"

text \<open>
  \<^verbatim>\<open>PurePath.name\<close>, \<^verbatim>\<open>PurePath.parent\<close>, \<^verbatim>\<open>PurePath.suffix\<close>, \<^verbatim>\<open>str(path)\<close>,
  \<^verbatim>\<open>path / string\<close> and \<^verbatim>\<open>PurePath.relative_to\<close>. The suffix is the last one only: with
  \<^verbatim>\<open>i = name.rfind(".")\<close> it is \<^verbatim>\<open>name[i:]\<close> when \<^verbatim>\<open>0 < i < len(name) - 1\<close> and the empty string
  otherwise. Joining with a string appends the string's parts, leaving out empty parts and
  single dots; a string that starts with a slash replaces the path.
\<close>

definition path_name :: "path \<Rightarrow> string" where
  "path_name p = (if p = [] \<or> p = [''/''] then [] else last p)"

definition path_parent :: "path \<Rightarrow> path" where
  "path_parent p = (if p = [] \<or> p = [''/''] then p else butlast p)"

definition path_suffix :: "path \<Rightarrow> string" where
  "path_suffix p =
     (let name = path_name p; i = rfind CHR ''.'' name
      in if 0 < i \<and> i < int (length name) - 1 then drop (nat i) name else [])"

definition str_path :: "path \<Rightarrow> string" where
  "str_path p =
     (case p of
        [] \<Rightarrow> ''.''
      | x # xs \<Rightarrow> if x = ''/'' then ''/'' @ str_join ''/'' xs else str_join ''/'' p)"

definition parse_parts :: "string \<Rightarrow> string list" where
  "parse_parts s = filter (\<lambda>c. c \<noteq> [] \<and> c \<noteq> ''.'') (str_split CHR ''/'' s)"

definition joinpath :: "path \<Rightarrow> string \<Rightarrow> path" where
  "joinpath p s =
     (case s of
        [] \<Rightarrow> p
      | c # _ \<Rightarrow> if c = CHR ''/'' then ''/'' # parse_parts s else p @ parse_parts s)"

datatype error =
    ValueError string
  | ReadError string
  | DuplicateError string
  | ColumnNotFoundError string
  | InvalidOperationError string

definition relative_to :: "path \<Rightarrow> path \<Rightarrow> error + path" where
  "relative_to fp base =
     (if take (length base) fp = base then Inr (drop (length base) fp)
      else Inl (ValueError (str_path fp @ '' is not in the subpath of '' @ str_path base)))"

section \<open>Tables\<close>

text \<open>
  A polars data frame is a list of named columns of equal length. What a reader backend decodes
  from a file is outside the script, so the world is a function from the backend and the path to
  the decoded frame or the backend's error. A lazy frame is a query that runs only when it is
  collected, against the world.
\<close>

datatype cell = CInt int | CStr string | CNull

type_synonym DataFrame = "(string \<times> cell list) list"

datatype reader = ReadCsvGz | ScanCsv | ScanParquet

type_synonym world = "reader \<Rightarrow> path \<Rightarrow> error + DataFrame"

type_synonym LazyFrame = "world \<Rightarrow> error + DataFrame"

definition height :: "DataFrame \<Rightarrow> nat" where
  "height df = (case df of [] \<Rightarrow> 0 | (n, vals) # _ \<Rightarrow> length vals)"

definition ROW_IDX_NAME :: string where
  "ROW_IDX_NAME = ''__row_idx''"

text \<open>The readers' \<^verbatim>\<open>row_index_name\<close> argument: a first column counting the rows from 0;
  polars refuses a frame that already has a column of that name.\<close>

definition with_row_index :: "string \<Rightarrow> DataFrame \<Rightarrow> error + DataFrame" where
  "with_row_index name df =
     (if name \<in> fst ` set df then Inl (DuplicateError name)
      else Inr ((name, map (\<lambda>i. CInt (int i)) [0..<height df]) # df))"

definition read_frame :: "world \<Rightarrow> reader \<Rightarrow> path \<Rightarrow> string \<Rightarrow> error + DataFrame" where
  "read_frame w r fp row_index_name =
     (case w r fp of Inl e \<Rightarrow> Inl e | Inr df \<Rightarrow> with_row_index row_index_name df)"

text \<open>\<^verbatim>\<open>pl.scan_csv\<close> and \<^verbatim>\<open>pl.scan_parquet\<close> read when collected; \<^verbatim>\<open>DataFrame.lazy()\<close>
  wraps a frame that is already in memory.\<close>

definition scan :: "reader \<Rightarrow> path \<Rightarrow> string \<Rightarrow> LazyFrame" where
  "scan r fp row_index_name = (\<lambda>w. read_frame w r fp row_index_name)"

definition lazy :: "DataFrame \<Rightarrow> LazyFrame" where
  "lazy df = (\<lambda>w. Inr df)"

definition collect :: "world \<Rightarrow> LazyFrame \<Rightarrow> error + DataFrame" where
  "collect w lf = lf w"

section \<open>\<^verbatim>\<open>scan_with_row_idx\<close>\<close>

text \<open>
  The function returns the warnings it logged (debug and info lines are left out: they do not
  change what the script does) and either the error it raised or the lazy frame. The branch for
  compressed CSV reads eagerly, through \<^verbatim>\<open>gzip.open\<close>, so it is the only one that touches
  the world.
\<close>

definition scan_with_row_idx :: "world \<Rightarrow> path \<Rightarrow> string list \<times> (error + LazyFrame)" where
  "scan_with_row_idx w fp =
     (let s = lower (path_suffix fp) in
      if s = ''.csv.gz'' then
        ([''Reading compressed CSV files may be slow and limit parallelizability.''],
         (case read_frame w ReadCsvGz fp ROW_IDX_NAME of
            Inl e \<Rightarrow> Inl e
          | Inr df \<Rightarrow> Inr (lazy df)))
      else if s = ''.csv'' then ([], Inr (scan ScanCsv fp ROW_IDX_NAME))
      else if s = ''.parquet'' then ([], Inr (scan ScanParquet fp ROW_IDX_NAME))
      else ([], Inl (ValueError (''Unsupported file type: '' @ path_suffix fp))))"

section \<open>Facts about suffixes\<close>

lemma rfind_neg: "\<not> 0 \<le> rfind c xs \<Longrightarrow> rfind c xs = - 1"
  by (induction xs) (auto simp: Let_def split: if_splits)

lemma rfind_append:
  "rfind c (xs @ ys) = (if 0 \<le> rfind c ys then int (length xs) + rfind c ys else rfind c xs)"
  by (induction xs) (auto simp: Let_def dest: rfind_neg)

lemma path_name_snoc: "n \<noteq> ''/'' \<Longrightarrow> path_name (d @ [n]) = n"
  by (auto simp: path_name_def)

lemma suffix_of_csv_gz:
  assumes "path_name fp = stem @ ''.csv.gz''"
  shows "path_suffix fp = ''.gz''"
proof -
  have r: "rfind CHR ''.'' ''.csv.gz'' = 4" by (simp add: Let_def)
  have "rfind CHR ''.'' (stem @ ''.csv.gz'') = int (length stem) + 4"
    unfolding rfind_append r by simp
  moreover have "nat (int (length stem) + 4) = length stem + 4" by simp
  ultimately show ?thesis
    using assms by (simp add: path_suffix_def Let_def)
qed

text \<open>
  C1. A path whose name ends in \<^verbatim>\<open>.csv.gz\<close> is not read as compressed CSV: \<^verbatim>\<open>Path.suffix\<close> is
  only the last suffix, \<^verbatim>\<open>.gz\<close>, so the first case of the match never applies and the function
  raises the unsupported-file-type error. Here at the path \<^verbatim>\<open>/raw/shard.csv.gz\<close>, in every world.
\<close>

theorem scan_with_row_idx_csv_gz_raises:
  "scan_with_row_idx w [''/'', ''raw'', ''shard.csv.gz'']
     = ([], Inl (ValueError ''Unsupported file type: .gz''))"
  by (simp add: scan_with_row_idx_def path_suffix_def path_name_def Let_def lower_def
      lower_char_def)

text \<open>The same for every name that ends in \<^verbatim>\<open>.csv.gz\<close>.\<close>

lemma scan_with_row_idx_any_csv_gz:
  assumes "path_name fp = stem @ ''.csv.gz''"
  shows "scan_with_row_idx w fp = ([], Inl (ValueError ''Unsupported file type: .gz''))"
  by (simp add: scan_with_row_idx_def suffix_of_csv_gz [OF assms] Let_def lower_def
      lower_char_def)

text \<open>
  C7. For every path whose lowered suffix is none of the three cases of the match,
  \<^verbatim>\<open>scan_with_row_idx\<close> raises a \<^verbatim>\<open>ValueError\<close> whose message ends with the suffix as the
  path has it; it logs no warning and returns no frame.
\<close>

theorem scan_with_row_idx_unsupported:
  assumes "lower (path_suffix fp) \<notin> {''.csv.gz'', ''.csv'', ''.parquet''}"
  shows "scan_with_row_idx w fp
           = ([], Inl (ValueError (''Unsupported file type: '' @ path_suffix fp)))"
  using assms by (simp add: scan_with_row_idx_def Let_def)

theorem scan_with_row_idx_unsupported_witness:
  "lower (path_suffix [''/'', ''raw'', ''notes.TXT'']) \<notin> {''.csv.gz'', ''.csv'', ''.parquet''}
   \<and> scan_with_row_idx (\<lambda>r p. Inr []) [''/'', ''raw'', ''notes.TXT'']
       = ([], Inl (ValueError ''Unsupported file type: .TXT''))"
  using scan_with_row_idx_unsupported [of "[''/'', ''raw'', ''notes.TXT'']" "\<lambda>r p. Inr []"]
  by (simp add: path_suffix_def path_name_def Let_def lower_def lower_char_def)

section \<open>\<^verbatim>\<open>filter_to_row_chunk\<close>\<close>

text \<open>
  \<^verbatim>\<open>pl.col(name).is_between(start, end, closed="left")\<close> on one cell: a null compares to null,
  which a filter treats as false; a string column does not compare with integers.
\<close>

fun cell_between :: "int \<Rightarrow> int \<Rightarrow> cell \<Rightarrow> error + bool" where
  "cell_between start end (CInt v) = Inr (start \<le> v \<and> v < end)"
| "cell_between start end CNull = Inr False"
| "cell_between start end (CStr s) =
     Inl (InvalidOperationError ''cannot compare string with numeric type'')"

fun map_result :: "('a \<Rightarrow> error + 'b) \<Rightarrow> 'a list \<Rightarrow> error + 'b list" where
  "map_result f [] = Inr []"
| "map_result f (x # xs) =
     (case f x of
        Inl e \<Rightarrow> Inl e
      | Inr y \<Rightarrow> (case map_result f xs of Inl e \<Rightarrow> Inl e | Inr ys \<Rightarrow> Inr (y # ys)))"

definition keep_rows :: "bool list \<Rightarrow> 'a list \<Rightarrow> 'a list" where
  "keep_rows keep vals = map snd (filter fst (zip keep vals))"

definition filter_between :: "string \<Rightarrow> int \<Rightarrow> int \<Rightarrow> DataFrame \<Rightarrow> error + DataFrame" where
  "filter_between name start end df =
     (case map_of df name of
        None \<Rightarrow> Inl (ColumnNotFoundError name)
      | Some idx \<Rightarrow>
          (case map_result (cell_between start end) idx of
             Inl e \<Rightarrow> Inl e
           | Inr keep \<Rightarrow> Inr (map (\<lambda>(n, vals). (n, keep_rows keep vals)) df)))"

definition drop_column :: "string \<Rightarrow> DataFrame \<Rightarrow> DataFrame" where
  "drop_column name df = filter (\<lambda>(n, vals). n \<noteq> name) df"

definition lf_filter_between :: "LazyFrame \<Rightarrow> string \<Rightarrow> int \<Rightarrow> int \<Rightarrow> LazyFrame" where
  "lf_filter_between lf name start end =
     (\<lambda>w. case lf w of Inl e \<Rightarrow> Inl e | Inr df \<Rightarrow> filter_between name start end df)"

definition lf_drop :: "LazyFrame \<Rightarrow> string \<Rightarrow> LazyFrame" where
  "lf_drop lf name = (\<lambda>w. case lf w of Inl e \<Rightarrow> Inl e | Inr df \<Rightarrow> Inr (drop_column name df))"

definition filter_to_row_chunk :: "LazyFrame \<Rightarrow> int \<Rightarrow> int \<Rightarrow> LazyFrame" where
  "filter_to_row_chunk df start end =
     lf_drop (lf_filter_between df ROW_IDX_NAME start end) ROW_IDX_NAME"










section \<open>Row-chunk boundaries\<close>

text \<open>
  \<^verbatim>\<open>list(range(start, stop, step))\<close>: a zero step raises; otherwise the length is the one
  CPython computes and the elements are \<^verbatim>\<open>start + k * step\<close>.
\<close>

definition range_length :: "int \<Rightarrow> int \<Rightarrow> int \<Rightarrow> nat" where
  "range_length lo hi step = (if lo < hi then nat ((hi - lo - 1) div step) + 1 else 0)"

definition py_range :: "int \<Rightarrow> int \<Rightarrow> int \<Rightarrow> error + int list" where
  "py_range start stop step =
     (if step = 0 then Inl (ValueError ''range() arg 3 must not be zero'')
      else
        (let n = (if 0 < step then range_length start stop step
                  else range_length stop start (- step))
         in Inr (map (\<lambda>k. start + int k * step) [0..<n])))"

text \<open>The end of the chunk that starts at \<^verbatim>\<open>st\<close>: \<^verbatim>\<open>min(st + row_chunksize, row_count)\<close>.\<close>

definition chunk_end :: "int \<Rightarrow> int \<Rightarrow> int \<Rightarrow> int" where
  "chunk_end row_chunksize row_count st = min (st + row_chunksize) row_count"

lemma le_div_iff_int:
  fixes a b c :: int
  assumes "0 < c"
  shows "a \<le> b div c \<longleftrightarrow> a * c \<le> b"
proof
  assume "a \<le> b div c"
  then have "a * c \<le> (b div c) * c"
    using assms by (simp add: mult_right_mono)
  also have "\<dots> \<le> b"
    using div_mult_mod_eq [of b c] pos_mod_sign [OF assms, of b] by linarith
  finally show "a * c \<le> b" .
next
  assume "a * c \<le> b"
  from zdiv_mono1 [OF this assms] show "a \<le> b div c"
    using assms by simp
qed

lemma start_index:
  assumes "0 < C"
  shows "int k < (R + C - 1) div C \<longleftrightarrow> int k * C < R"
proof -
  have "int k < (R + C - 1) div C \<longleftrightarrow> int k + 1 \<le> (R + C - 1) div C" by linarith
  also have "\<dots> \<longleftrightarrow> (int k + 1) * C \<le> R + C - 1"
    by (rule le_div_iff_int [OF assms])
  also have "\<dots> \<longleftrightarrow> int k * C < R"
    by (auto simp: algebra_simps)
  finally show ?thesis .
qed

lemma range_length_pos:
  assumes "0 < C"
  shows "range_length 0 R C = nat ((R + C - 1) div C)"
proof (cases "0 < R")
  case True
  have "C \<noteq> 0" using assms by simp
  from div_add_self2 [OF this, of "R - 1"]
  have "(R - 1 + C) div C = (R - 1) div C + 1" .
  moreover have "R + C - 1 = R - 1 + C" by simp
  ultimately have "(R + C - 1) div C = (R - 1) div C + 1" by (simp only:)
  moreover have "0 \<le> (R - 1) div C"
    using assms True by (simp add: pos_imp_zdiv_nonneg_iff)
  moreover note True
  ultimately show ?thesis
    by (simp add: range_length_def nat_add_distrib)
next
  case False
  then have "\<not> int 0 < (R + C - 1) div C"
    unfolding start_index [OF assms] by simp
  then show ?thesis
    using False by (simp add: range_length_def)
qed


lemma py_range_pos:
  assumes "0 < C"
  shows "py_range 0 R C = Inr (map (\<lambda>k. int k * C) [0..<nat ((R + C - 1) div C)])"
  using assms by (simp add: py_range_def range_length_pos)






section \<open>\<^verbatim>\<open>get_shard_prefix\<close> and file discovery\<close>

text \<open>\<^verbatim>\<open>name.split(".")[0]\<close>: the part of the name before its first dot.\<close>

definition first_part :: "string \<Rightarrow> string" where
  "first_part name = (case str_split CHR ''.'' name of [] \<Rightarrow> [] | x # _ \<Rightarrow> x)"

definition get_shard_prefix :: "path \<Rightarrow> path \<Rightarrow> error + string" where
  "get_shard_prefix base_path fp =
     (case relative_to fp base_path of
        Inl e \<Rightarrow> Inl e
      | Inr relative_path \<Rightarrow>
          (let relative_parent = path_parent relative_path;
               file_name = first_part (path_name relative_path)
           in Inr (str_path (joinpath relative_parent file_name))))"

record config =
  raw_cohort_dir :: path
  MEDS_cohort_dir :: path
  row_chunksize :: int
  do_overwrite :: bool

text \<open>
  \<^verbatim>\<open>raw_cohort_dir.glob("**/*.fmt")\<close>: the directory tree is given as the list of the paths
  below the root, relative to it, in the order the walk yields them; the glob returns, under the
  root, those whose name ends with a dot and the format.
\<close>

definition glob :: "path \<Rightarrow> path list \<Rightarrow> string \<Rightarrow> path list" where
  "glob root tree fmt =
     map (\<lambda>rel. root @ rel) (filter (\<lambda>rel. endswith (path_name rel) (''.'' @ fmt)) tree)"

record discovery =
  seen_files :: "string set"
  input_files_to_subshard :: "path list"
  skip_warnings :: "string list"

definition skip_warning :: "path \<Rightarrow> string" where
  "skip_warning f =
     ''Skipping '' @ str_path f @ '' as it has already been added in a preferred format.''"

text \<open>The inner loop of lines 92 to 97, over the files of one format.\<close>

fun add_files :: "path \<Rightarrow> path list \<Rightarrow> discovery \<Rightarrow> error + discovery" where
  "add_files raw [] s = Inr s"
| "add_files raw (f # fs) s =
     (case get_shard_prefix raw f of
        Inl e \<Rightarrow> Inl e
      | Inr pre \<Rightarrow>
          if pre \<in> seen_files s
          then add_files raw fs (s\<lparr>skip_warnings := skip_warnings s @ [skip_warning f]\<rparr>)
          else add_files raw fs
                 (s\<lparr>input_files_to_subshard := input_files_to_subshard s @ [f],
                    seen_files := insert pre (seen_files s)\<rparr>))"

text \<open>The outer loop of line 90, over the formats in their order of preference.\<close>

fun add_formats :: "path \<Rightarrow> path list \<Rightarrow> string list \<Rightarrow> discovery \<Rightarrow> error + discovery" where
  "add_formats raw tree [] s = Inr s"
| "add_formats raw tree (fmt # fmts) s =
     (case add_files raw (glob raw tree fmt) s of
        Inl e \<Rightarrow> Inl e
      | Inr s' \<Rightarrow> add_formats raw tree fmts s')"

definition formats :: "string list" where
  "formats = [''parquet'', ''csv'', ''csv.gz'']"

definition discover :: "path \<Rightarrow> path list \<Rightarrow> error + discovery" where
  "discover raw tree =
     add_formats raw tree formats
       \<lparr>seen_files = {}, input_files_to_subshard = [], skip_warnings = []\<rparr>"

text \<open>The files the three globs return, in the order the loops visit them.\<close>

definition candidates :: "path \<Rightarrow> path list \<Rightarrow> path list" where
  "candidates raw tree = concat (map (glob raw tree) formats)"

text \<open>The rank of a file's format in the order of preference.\<close>

definition fmt_rank :: "path \<Rightarrow> nat" where
  "fmt_rank f =
     (if endswith (path_name f) ''.parquet'' then 0
      else if endswith (path_name f) ''.csv'' then 1
      else if endswith (path_name f) ''.csv.gz'' then 2
      else 3)"

lemma get_shard_prefix_under:
  assumes "take (length raw) f = raw"
  shows "\<exists>p. get_shard_prefix raw f = Inr p"
  using assms by (simp add: get_shard_prefix_def relative_to_def Let_def)

lemma add_files_inv:
  assumes "\<forall>f \<in> set cs. take (length raw) f = raw"
  shows "\<exists>s' new rej. add_files raw cs s = Inr s'
     \<and> input_files_to_subshard s' = input_files_to_subshard s @ new
     \<and> skip_warnings s' = skip_warnings s @ map skip_warning rej
     \<and> mset new + mset rej = mset cs
     \<and> distinct (map (get_shard_prefix raw) new)
     \<and> get_shard_prefix raw ` set new = get_shard_prefix raw ` set cs - Inr ` seen_files s
     \<and> (sorted (map rank cs) \<longrightarrow>
          (\<forall>f \<in> set new. \<forall>g \<in> set cs.
             get_shard_prefix raw g = get_shard_prefix raw f \<longrightarrow> (rank f :: nat) \<le> rank g))"
  using assms
proof (induction cs arbitrary: s)
  case Nil
  show ?case by simp
next
  case (Cons f fs)
  from Cons.prems obtain p where p: "get_shard_prefix raw f = Inr p"
    using get_shard_prefix_under [of raw f] by auto
  from Cons.prems have under: "\<forall>f \<in> set fs. take (length raw) f = raw" by simp
  show ?case
  proof (cases "p \<in> seen_files s")
    case True
    let ?s1 = "s\<lparr>skip_warnings := skip_warnings s @ [skip_warning f]\<rparr>"
    from Cons.IH [OF under, of ?s1] obtain s' new rej where
      r: "add_files raw fs ?s1 = Inr s'"
      and i: "input_files_to_subshard s' = input_files_to_subshard s @ new"
      and w: "skip_warnings s' = skip_warnings s @ skip_warning f # map skip_warning rej"
      and m: "mset new + mset rej = mset fs"
      and d: "distinct (map (get_shard_prefix raw) new)"
      and e: "get_shard_prefix raw ` set new = get_shard_prefix raw ` set fs - Inr ` seen_files s"
      and k: "sorted (map rank fs) \<longrightarrow>
          (\<forall>f \<in> set new. \<forall>g \<in> set fs.
             get_shard_prefix raw g = get_shard_prefix raw f \<longrightarrow> rank f \<le> rank g)"
      by auto
    have e': "get_shard_prefix raw ` set new
                = get_shard_prefix raw ` set (f # fs) - Inr ` seen_files s"
      using e p True by auto
    have k': "sorted (map rank (f # fs)) \<longrightarrow>
          (\<forall>h \<in> set new. \<forall>g \<in> set (f # fs).
             get_shard_prefix raw g = get_shard_prefix raw h \<longrightarrow> rank h \<le> rank g)"
    proof (intro impI ballI)
      fix h g
      assume srt: "sorted (map rank (f # fs))" and h: "h \<in> set new" and g: "g \<in> set (f # fs)"
        and eq: "get_shard_prefix raw g = get_shard_prefix raw h"
      from h e have "get_shard_prefix raw h \<notin> Inr ` seen_files s" by blast
      with p True eq have "g \<noteq> f" by auto
      with g have "g \<in> set fs" by simp
      with k srt h eq show "rank h \<le> rank g" by simp
    qed
    have "add_files raw (f # fs) s = Inr s'"
      using p True r by simp
    moreover have "skip_warnings s' = skip_warnings s @ map skip_warning (f # rej)"
      using w by simp
    moreover have "mset new + mset (f # rej) = mset (f # fs)"
      using m by simp
    ultimately show ?thesis
      using i d e' k' by blast
  next
    case False
    let ?s1 = "s\<lparr>input_files_to_subshard := input_files_to_subshard s @ [f],
                  seen_files := insert p (seen_files s)\<rparr>"
    from Cons.IH [OF under, of ?s1] obtain s' new rej where
      r: "add_files raw fs ?s1 = Inr s'"
      and i: "input_files_to_subshard s' = input_files_to_subshard s @ f # new"
      and w: "skip_warnings s' = skip_warnings s @ map skip_warning rej"
      and m: "mset new + mset rej = mset fs"
      and d: "distinct (map (get_shard_prefix raw) new)"
      and e: "get_shard_prefix raw ` set new
                = get_shard_prefix raw ` set fs - Inr ` insert p (seen_files s)"
      and k: "sorted (map rank fs) \<longrightarrow>
          (\<forall>f \<in> set new. \<forall>g \<in> set fs.
             get_shard_prefix raw g = get_shard_prefix raw f \<longrightarrow> rank f \<le> rank g)"
      by auto
    from e p have notin: "get_shard_prefix raw f \<notin> get_shard_prefix raw ` set new"
      by auto
    have d': "distinct (map (get_shard_prefix raw) (f # new))"
      using d notin by simp
    have e': "get_shard_prefix raw ` set (f # new)
                = get_shard_prefix raw ` set (f # fs) - Inr ` seen_files s"
      using e p False by auto
    have k': "sorted (map rank (f # fs)) \<longrightarrow>
          (\<forall>h \<in> set (f # new). \<forall>g \<in> set (f # fs).
             get_shard_prefix raw g = get_shard_prefix raw h \<longrightarrow> rank h \<le> rank g)"
    proof (intro impI ballI)
      fix h g
      assume srt: "sorted (map rank (f # fs))" and h: "h \<in> set (f # new)"
        and g: "g \<in> set (f # fs)"
        and eq: "get_shard_prefix raw g = get_shard_prefix raw h"
      show "rank h \<le> rank g"
      proof (cases "h = f")
        case True
        with srt g show ?thesis by auto
      next
        case hf: False
        with h have hn: "h \<in> set new" by simp
        with notin eq have "g \<noteq> f" by force
        with g have "g \<in> set fs" by simp
        with k srt hn eq show ?thesis by simp
      qed
    qed
    have "add_files raw (f # fs) s = Inr s'"
      using p False r by simp
    moreover have "input_files_to_subshard s' = input_files_to_subshard s @ (f # new)"
      using i by simp
    moreover have "mset (f # new) + mset rej = mset (f # fs)"
      using m by simp
    ultimately show ?thesis
      using w d' e' k' by blast
  qed
qed


lemma add_files_append:
  "add_files raw (xs @ ys) s
     = (case add_files raw xs s of Inl e \<Rightarrow> Inl e | Inr s' \<Rightarrow> add_files raw ys s')"
  by (induction xs arbitrary: s) (auto split: sum.splits)

lemma add_formats_flat:
  "add_formats raw tree fmts s = add_files raw (concat (map (glob raw tree) fmts)) s"
  by (induction fmts arbitrary: s) (auto simp: add_files_append split: sum.splits)

lemma glob_under: "f \<in> set (glob raw tree fmt) \<Longrightarrow> take (length raw) f = raw"
  by (auto simp: glob_def)

lemma candidates_under: "f \<in> set (candidates raw tree) \<Longrightarrow> take (length raw) f = raw"
  by (auto simp: candidates_def dest: glob_under)

lemma endswith_last:
  assumes "endswith s suf" and "suf \<noteq> []"
  shows "last s = last suf"
proof -
  from assms have d: "drop (length s - length suf) s = suf" and "length suf \<le> length s"
    by (auto simp: endswith_def)
  moreover from assms(2) have "0 < length suf" by simp
  ultimately have "length s - length suf < length s" by linarith
  then have "last (drop (length s - length suf) s) = last s"
    by (intro last_drop)
  with d show ?thesis by simp
qed

lemma endswith_exclusive:
  "endswith s ''.csv'' \<Longrightarrow> \<not> endswith s ''.parquet''"
  "endswith s ''.csv.gz'' \<Longrightarrow> \<not> endswith s ''.parquet''"
  "endswith s ''.csv.gz'' \<Longrightarrow> \<not> endswith s ''.csv''"
  by (auto dest!: endswith_last)

lemma glob_name:
  assumes "f \<in> set (glob raw tree fmt)"
  shows "endswith (path_name f) (''.'' @ fmt)"
proof -
  from assms obtain rel where f: "f = raw @ rel" and e: "endswith (path_name rel) (''.'' @ fmt)"
    by (auto simp: glob_def)
  from e have "path_name rel \<noteq> []" by (auto simp: endswith_def)
  then have "rel \<noteq> []" "rel \<noteq> [''/'']" by (auto simp: path_name_def)
  then have "path_name (raw @ rel) = path_name rel"
    by (auto simp: path_name_def append_eq_Cons_conv)
  with f e show ?thesis by simp
qed

lemma glob_rank:
  "f \<in> set (glob raw tree ''parquet'') \<Longrightarrow> fmt_rank f = 0"
  "f \<in> set (glob raw tree ''csv'') \<Longrightarrow> fmt_rank f = 1"
  "f \<in> set (glob raw tree ''csv.gz'') \<Longrightarrow> fmt_rank f = 2"
  by (auto dest!: glob_name simp: fmt_rank_def endswith_exclusive)

lemma sorted_const: "\<forall>x \<in> set xs. f x = (c::nat) \<Longrightarrow> sorted (map f xs)"
  by (induction xs) auto

lemma candidates_sorted: "sorted (map fmt_rank (candidates raw tree))"
  by (auto simp: candidates_def formats_def sorted_append glob_rank intro: sorted_const)

lemma discover_props:
  "\<exists>d rejected. discover raw tree = Inr d
     \<and> mset (input_files_to_subshard d) + mset rejected = mset (candidates raw tree)
     \<and> skip_warnings d = map skip_warning rejected
     \<and> distinct (map (get_shard_prefix raw) (input_files_to_subshard d))
     \<and> get_shard_prefix raw ` set (input_files_to_subshard d)
         = get_shard_prefix raw ` set (candidates raw tree)
     \<and> (\<forall>f \<in> set (input_files_to_subshard d). \<forall>g \<in> set (candidates raw tree).
           get_shard_prefix raw g = get_shard_prefix raw f \<longrightarrow> fmt_rank f \<le> fmt_rank g)"
proof -
  let ?s0 = "\<lparr>seen_files = {}, input_files_to_subshard = [], skip_warnings = []\<rparr>"
  have u: "\<forall>f \<in> set (candidates raw tree). take (length raw) f = raw"
    by (simp add: candidates_under)
  from add_files_inv [OF u, of ?s0 fmt_rank] candidates_sorted [of raw tree]
  obtain s' new rej where "add_files raw (candidates raw tree) ?s0 = Inr s'"
    "input_files_to_subshard s' = new" "skip_warnings s' = map skip_warning rej"
    "mset new + mset rej = mset (candidates raw tree)"
    "distinct (map (get_shard_prefix raw) new)"
    "get_shard_prefix raw ` set new = get_shard_prefix raw ` set (candidates raw tree)"
    "\<forall>f \<in> set new. \<forall>g \<in> set (candidates raw tree).
       get_shard_prefix raw g = get_shard_prefix raw f \<longrightarrow> fmt_rank f \<le> fmt_rank g"
    by auto
  then show ?thesis
    unfolding discover_def add_formats_flat candidates_def by blast
qed

lemma first_part_takeWhile: "first_part name = takeWhile (\<lambda>c. c \<noteq> CHR ''.'') name"
proof -
  have "str_split c s \<noteq> []" for c s
    by (induction s) (auto split: list.splits)
  moreover have "(case str_split c s of [] \<Rightarrow> [] | x # _ \<Rightarrow> x) = takeWhile (\<lambda>x. x \<noteq> c) s" for c s
    by (induction s) (auto split: list.splits)
  ultimately show ?thesis by (simp add: first_part_def)
qed

lemma get_shard_prefix_file:
  assumes "n \<noteq> ''/''"
  shows "get_shard_prefix raw (raw @ dir @ [n])
           = Inr (str_path (joinpath dir (takeWhile (\<lambda>c. c \<noteq> CHR ''.'') n)))"
  using assms
  by (simp add: get_shard_prefix_def relative_to_def Let_def first_part_takeWhile
      path_name_def path_parent_def)

lemmas discovery_eval = discover_def formats_def glob_def endswith_def path_name_def
  get_shard_prefix_def relative_to_def Let_def first_part_def path_parent_def joinpath_def
  parse_parts_def str_path_def skip_warning_def

text \<open>
  C3. Discovery returns, whatever the tree. Every discovered file is either accepted or rejected
  with one skip warning that names it. The accepted files have pairwise different shard
  identities, and every identity of a discovered file has its accepted file; that file has the
  most preferred format (parquet before csv before csv.gz) among the discovered files of its
  identity.
\<close>

theorem discovery_keeps_preferred_format:
  "\<exists>d rejected. discover raw tree = Inr d
     \<and> mset (input_files_to_subshard d) + mset rejected = mset (candidates raw tree)
     \<and> skip_warnings d = map skip_warning rejected
     \<and> distinct (map (get_shard_prefix raw) (input_files_to_subshard d))
     \<and> get_shard_prefix raw ` set (input_files_to_subshard d)
         = get_shard_prefix raw ` set (candidates raw tree)
     \<and> (\<forall>f \<in> set (input_files_to_subshard d). \<forall>g \<in> set (candidates raw tree).
           get_shard_prefix raw g = get_shard_prefix raw f \<longrightarrow> fmt_rank f \<le> fmt_rank g)"
  by (rule discover_props)

text \<open>The three variants of one shard, listed in two different orders: the parquet file is
  selected and two warnings are logged.\<close>

theorem discovery_keeps_preferred_format_witness:
  "discover [''/'', ''raw''] [[''shard.csv.gz''], [''shard.csv''], [''shard.parquet'']]
     = Inr \<lparr>seen_files = {''shard''},
            input_files_to_subshard = [[''/'', ''raw'', ''shard.parquet'']],
            skip_warnings =
              [''Skipping /raw/shard.csv as it has already been added in a preferred format.'',
               ''Skipping /raw/shard.csv.gz as it has already been added in a preferred format.'']\<rparr>
   \<and> discover [''/'', ''raw''] [[''shard.csv''], [''shard.parquet''], [''shard.csv.gz'']]
     = Inr \<lparr>seen_files = {''shard''},
            input_files_to_subshard = [[''/'', ''raw'', ''shard.parquet'']],
            skip_warnings =
              [''Skipping /raw/shard.csv as it has already been added in a preferred format.'',
               ''Skipping /raw/shard.csv.gz as it has already been added in a preferred format.'']\<rparr>"
proof -
  have a: "discover [''/'', ''raw''] [[''shard.csv.gz''], [''shard.csv''], [''shard.parquet'']]
     = Inr \<lparr>seen_files = {''shard''},
            input_files_to_subshard = [[''/'', ''raw'', ''shard.parquet'']],
            skip_warnings =
              [''Skipping /raw/shard.csv as it has already been added in a preferred format.'',
               ''Skipping /raw/shard.csv.gz as it has already been added in a preferred format.'']\<rparr>"
    by (simp add: discovery_eval)
  have b: "discover [''/'', ''raw''] [[''shard.csv''], [''shard.parquet''], [''shard.csv.gz'']]
     = Inr \<lparr>seen_files = {''shard''},
            input_files_to_subshard = [[''/'', ''raw'', ''shard.parquet'']],
            skip_warnings =
              [''Skipping /raw/shard.csv as it has already been added in a preferred format.'',
               ''Skipping /raw/shard.csv.gz as it has already been added in a preferred format.'']\<rparr>"
    by (simp add: discovery_eval)
  show ?thesis
    using discovery_keeps_preferred_format
            [of "[''/'', ''raw'']" "[[''shard.csv.gz''], [''shard.csv''], [''shard.parquet'']]"] a b
    by simp
qed



section \<open>The orchestrator\<close>

text \<open>\<^verbatim>\<open>str(n)\<close> for an integer, as the f-string of line 122 formats a chunk's bounds.\<close>

definition digit_char :: "nat \<Rightarrow> char" where
  "digit_char d = ''0123456789'' ! d"

function str_nat :: "nat \<Rightarrow> string" where
  "str_nat n = (if n < 10 then [digit_char n] else str_nat (n div 10) @ [digit_char (n mod 10)])"
  by pat_completeness auto
termination
  by (relation "measure (\<lambda>n. n)") auto

declare str_nat.simps [simp del]

definition str_int :: "int \<Rightarrow> string" where
  "str_int i = (if i < 0 then CHR ''-'' # str_nat (nat (- i)) else str_nat (nat i))"

definition chunk_name :: "int \<Rightarrow> int \<Rightarrow> string" where
  "chunk_name st en = ''['' @ str_int st @ ''-'' @ str_int en @ '').parquet''"

text \<open>
  \<^verbatim>\<open>random.shuffle\<close>: the generator is the sequence of numbers it will draw; \<^verbatim>\<open>randbelow(n)\<close>
  takes the next one modulo \<^verbatim>\<open>n\<close>. The shuffle runs \<^verbatim>\<open>i\<close> from the last index down to 1 and
  exchanges \<^verbatim>\<open>x[i]\<close> with \<^verbatim>\<open>x[randbelow(i + 1)]\<close>, as CPython does.
\<close>

type_synonym rng = "nat \<Rightarrow> nat"

definition randbelow :: "nat \<Rightarrow> rng \<Rightarrow> nat \<times> rng" where
  "randbelow n g = (g 0 mod n, \<lambda>k. g (Suc k))"

fun shuffle_from :: "nat \<Rightarrow> rng \<Rightarrow> 'a list \<Rightarrow> 'a list \<times> rng" where
  "shuffle_from 0 g x = (x, g)"
| "shuffle_from (Suc i) g x =
     (let (j, g') = randbelow (Suc i + 1) g
      in shuffle_from i g' (x[Suc i := x ! j, j := x ! Suc i]))"

definition shuffle :: "rng \<Rightarrow> 'a list \<Rightarrow> 'a list \<times> rng" where
  "shuffle g x = shuffle_from (length x - 1) g x"

text \<open>\<^verbatim>\<open>df.select(pl.len()).collect().item()\<close>.\<close>

definition row_count :: "world \<Rightarrow> LazyFrame \<Rightarrow> error + int" where
  "row_count w df = (case collect w df of Inl e \<Rightarrow> Inl e | Inr d \<Rightarrow> Inr (int (height d)))"

text \<open>
  One call of the compute wrapper, by its arguments: the input file, the output file, the bounds
  bound into \<^verbatim>\<open>compute_fn\<close> and the overwrite flag. The reader and the writer are the same
  functions in every call.
\<close>

record wrap_call =
  wc_input :: path
  wc_output :: path
  wc_start :: int
  wc_end :: int
  wc_overwrite :: bool

text \<open>What a run of the script did: the warnings it logged, the directories it made, the
  wrapper calls it issued, in their order, and the exception that ended it, if any.\<close>

record outcome =
  warnings :: "string list"
  made_dirs :: "path list"
  wrap_calls :: "wrap_call list"
  raised :: "error option"

text \<open>The body of the loop over the input files, lines 108 to 128.\<close>

definition process_file :: "config \<Rightarrow> world \<Rightarrow> path \<Rightarrow> rng \<Rightarrow> outcome \<Rightarrow> outcome \<times> rng" where
  "process_file cfg w input_file g out =
     (case get_shard_prefix (raw_cohort_dir cfg) input_file of
        Inl e \<Rightarrow> (out\<lparr>raised := Some e\<rparr>, g)
      | Inr pre \<Rightarrow>
          (let out_dir = joinpath (joinpath (MEDS_cohort_dir cfg) ''sub_sharded'') pre;
               out1 = out\<lparr>made_dirs := made_dirs out @ [out_dir]\<rparr>;
               (ws, r) = scan_with_row_idx w input_file;
               out2 = out1\<lparr>warnings := warnings out1 @ ws\<rparr>
           in case r of
                Inl e \<Rightarrow> (out2\<lparr>raised := Some e\<rparr>, g)
              | Inr df \<Rightarrow>
                  (case row_count w df of
                     Inl e \<Rightarrow> (out2\<lparr>raised := Some e\<rparr>, g)
                   | Inr n \<Rightarrow>
                       (case py_range 0 n (row_chunksize cfg) of
                          Inl e \<Rightarrow> (out2\<lparr>raised := Some e\<rparr>, g)
                        | Inr row_shards \<Rightarrow>
                            (let (shuffled, g') = shuffle g row_shards
                             in (out2\<lparr>wrap_calls := wrap_calls out2 @
                                   map (\<lambda>st.
                                     (let en = chunk_end (row_chunksize cfg) n st
                                      in \<lparr>wc_input = input_file,
                                          wc_output = joinpath out_dir (chunk_name st en),
                                          wc_start = st,
                                          wc_end = en,
                                          wc_overwrite = do_overwrite cfg\<rparr>)) shuffled\<rparr>,
                                 g'))))))"

text \<open>The loop of line 107: an exception ends it.\<close>

fun process_files :: "config \<Rightarrow> world \<Rightarrow> path list \<Rightarrow> rng \<Rightarrow> outcome \<Rightarrow> outcome" where
  "process_files cfg w [] g out = out"
| "process_files cfg w (f # fs) g out =
     (let (out', g') = process_file cfg w f g out
      in if raised out' \<noteq> None then out' else process_files cfg w fs g' out')"

definition main :: "config \<Rightarrow> world \<Rightarrow> path list \<Rightarrow> rng \<Rightarrow> outcome" where
  "main cfg w tree g =
     (case discover (raw_cohort_dir cfg) tree of
        Inl e \<Rightarrow> \<lparr>warnings = [], made_dirs = [], wrap_calls = [], raised = Some e\<rparr>
      | Inr d \<Rightarrow>
          (let (files, g') = shuffle g (input_files_to_subshard d)
           in process_files cfg w files g'
                \<lparr>warnings = skip_warnings d, made_dirs = [], wrap_calls = [], raised = None\<rparr>))"

lemma shuffle_from_mset:
  "i < length x \<Longrightarrow> mset (fst (shuffle_from i g x)) = mset x"
proof (induction i arbitrary: g x)
  case 0
  show ?case by simp
next
  case (Suc i)
  let ?j = "g 0 mod (Suc i + 1)"
  let ?x' = "x[Suc i := x ! ?j, ?j := x ! Suc i]"
  have j: "?j < length x" using Suc.prems by (simp add: less_le_trans [OF mod_less_divisor])
  have "mset ?x' = mset x"
    using Suc.prems j by (simp add: mset_swap)
  moreover have "i < length ?x'" using Suc.prems by simp
  ultimately show ?case
    using Suc.IH [of ?x' "\<lambda>k. g (Suc k)"] by (simp add: randbelow_def)
qed

lemma shuffle_mset: "mset (fst (shuffle g x)) = mset x"
proof (cases "x = []")
  case True
  then show ?thesis by (simp add: shuffle_def)
next
  case False
  then have "length x - 1 < length x" by simp
  then show ?thesis unfolding shuffle_def by (rule shuffle_from_mset)
qed

section \<open>Facts about the orchestrator\<close>

text \<open>
  The part of the loop body that does not draw random numbers: the scan of the file, its row
  count and the range of its chunk starts; and the wrapper calls the body issues for the chunk
  starts in the order of the range.
\<close>

definition file_chunks :: "config \<Rightarrow> world \<Rightarrow> path \<Rightarrow> error + (int \<times> int list)" where
  "file_chunks cfg w f =
     (case snd (scan_with_row_idx w f) of
        Inl e \<Rightarrow> Inl e
      | Inr df \<Rightarrow>
          (case row_count w df of
             Inl e \<Rightarrow> Inl e
           | Inr n \<Rightarrow>
               (case py_range 0 n (row_chunksize cfg) of
                  Inl e \<Rightarrow> Inl e
                | Inr row_shards \<Rightarrow> Inr (n, row_shards))))"

definition mk_call :: "config \<Rightarrow> path \<Rightarrow> string \<Rightarrow> int \<Rightarrow> int \<Rightarrow> wrap_call" where
  "mk_call cfg f pre n st =
     \<lparr>wc_input = f,
      wc_output = joinpath (joinpath (joinpath (MEDS_cohort_dir cfg) ''sub_sharded'') pre)
                    (chunk_name st (chunk_end (row_chunksize cfg) n st)),
      wc_start = st,
      wc_end = chunk_end (row_chunksize cfg) n st,
      wc_overwrite = do_overwrite cfg\<rparr>"

definition file_calls :: "config \<Rightarrow> world \<Rightarrow> path \<Rightarrow> wrap_call list" where
  "file_calls cfg w f =
     (case get_shard_prefix (raw_cohort_dir cfg) f of
        Inl e \<Rightarrow> []
      | Inr pre \<Rightarrow>
          (case file_chunks cfg w f of
             Inl e \<Rightarrow> []
           | Inr (n, row_shards) \<Rightarrow> map (mk_call cfg f pre n) row_shards))"

definition file_ok :: "config \<Rightarrow> world \<Rightarrow> path \<Rightarrow> bool" where
  "file_ok cfg w f =
     (case get_shard_prefix (raw_cohort_dir cfg) f of
        Inl e \<Rightarrow> False
      | Inr pre \<Rightarrow> (case file_chunks cfg w f of Inl e \<Rightarrow> False | Inr x \<Rightarrow> True))"

lemma file_ok_cases:
  assumes "file_ok cfg w f"
  obtains pre ws df n row_shards where
    "get_shard_prefix (raw_cohort_dir cfg) f = Inr pre"
    "scan_with_row_idx w f = (ws, Inr df)"
    "row_count w df = Inr n"
    "py_range 0 n (row_chunksize cfg) = Inr row_shards"
    "file_chunks cfg w f = Inr (n, row_shards)"
    "file_calls cfg w f = map (mk_call cfg f pre n) row_shards"
proof -
  obtain ws r where sc: "scan_with_row_idx w f = (ws, r)"
    by (cases "scan_with_row_idx w f")
  from assms sc show ?thesis
    by (auto simp: file_ok_def file_chunks_def file_calls_def split: sum.splits intro: that)
qed

lemma process_file_ok:
  assumes "file_ok cfg w f"
  shows "\<exists>out' g' sh. process_file cfg w f g out = (out', g')
           \<and> raised out' = raised out
           \<and> wrap_calls out' = wrap_calls out @ sh
           \<and> mset sh = mset (file_calls cfg w f)
           \<and> warnings out' = warnings out @ fst (scan_with_row_idx w f)
           \<and> set (made_dirs out) \<subseteq> set (made_dirs out')"
proof -
  from assms obtain pre ws df n row_shards where
    p: "get_shard_prefix (raw_cohort_dir cfg) f = Inr pre"
    and sc: "scan_with_row_idx w f = (ws, Inr df)"
    and rc: "row_count w df = Inr n"
    and pr: "py_range 0 n (row_chunksize cfg) = Inr row_shards"
    and fc: "file_calls cfg w f = map (mk_call cfg f pre n) row_shards"
    by (rule file_ok_cases)
  obtain shuffled g' where sh: "shuffle g row_shards = (shuffled, g')"
    by (cases "shuffle g row_shards")
  with shuffle_mset [of g row_shards] have m: "mset shuffled = mset row_shards" by simp
  have "mset (map (mk_call cfg f pre n) shuffled) = mset (file_calls cfg w f)"
    by (simp add: fc m)
  moreover have "process_file cfg w f g out
    = (out\<lparr>made_dirs := made_dirs out @ [joinpath (joinpath (MEDS_cohort_dir cfg) ''sub_sharded'') pre],
           warnings := warnings out @ ws,
           wrap_calls := wrap_calls out @ map (mk_call cfg f pre n) shuffled\<rparr>, g')"
    by (simp add: process_file_def p sc rc pr sh Let_def mk_call_def)
  ultimately show ?thesis
    using sc by auto
qed

lemma process_file_fail:
  assumes "\<not> file_ok cfg w f"
  shows "raised (fst (process_file cfg w f g out)) \<noteq> None
       \<and> wrap_calls (fst (process_file cfg w f g out)) = wrap_calls out"
proof -
  obtain ws r where sc: "scan_with_row_idx w f = (ws, r)"
    by (cases "scan_with_row_idx w f")
  from assms sc show ?thesis
    by (auto simp: file_ok_def file_chunks_def process_file_def Let_def split: sum.splits)
qed

lemma process_files_ok:
  assumes "\<forall>f \<in> set fs. file_ok cfg w f" and "raised out = None"
  shows "raised (process_files cfg w fs g out) = None
       \<and> mset (wrap_calls (process_files cfg w fs g out))
           = mset (wrap_calls out) + mset (concat (map (file_calls cfg w) fs))
       \<and> mset (warnings (process_files cfg w fs g out))
           = mset (warnings out) + mset (concat (map (\<lambda>f. fst (scan_with_row_idx w f)) fs))"
  using assms
proof (induction fs arbitrary: g out)
  case Nil
  then show ?case by simp
next
  case (Cons f fs)
  then have ok: "file_ok cfg w f" and rest: "\<forall>f \<in> set fs. file_ok cfg w f" by simp_all
  from process_file_ok [OF ok, of g out] obtain out' g' sh where
    pf: "process_file cfg w f g out = (out', g')"
    and r: "raised out' = raised out"
    and c: "wrap_calls out' = wrap_calls out @ sh"
    and m: "mset sh = mset (file_calls cfg w f)"
    and wn: "warnings out' = warnings out @ fst (scan_with_row_idx w f)"
    by blast
  from pf r Cons.prems(2)
  have "process_files cfg w (f # fs) g out = process_files cfg w fs g' out'"
    by simp
  moreover from r Cons.prems(2) have "raised out' = None" by simp
  ultimately show ?case
    using Cons.IH [OF rest, of out' g'] c m wn by simp
qed

lemma process_files_fail:
  assumes "\<exists>f \<in> set fs. \<not> file_ok cfg w f"
  shows "raised (process_files cfg w fs g out) \<noteq> None"
  using assms
proof (induction fs arbitrary: g out)
  case Nil
  then show ?case by simp
next
  case (Cons f fs)
  obtain out' g' where pf: "process_file cfg w f g out = (out', g')"
    by (cases "process_file cfg w f g out")
  show ?case
  proof (cases "raised out' = None")
    case True
    with process_file_fail [of cfg w f g out] pf have "file_ok cfg w f" by auto
    with Cons.prems have "\<exists>f \<in> set fs. \<not> file_ok cfg w f" by simp
    from Cons.IH [OF this, of g' out'] pf True show ?thesis by simp
  next
    case False
    with pf show ?thesis by simp
  qed
qed

lemma process_files_calls_subset:
  "set (wrap_calls (process_files cfg w fs g out))
     \<subseteq> set (wrap_calls out) \<union> (\<Union>f \<in> set fs. set (file_calls cfg w f))"
proof (induction fs arbitrary: g out)
  case Nil
  show ?case by simp
next
  case (Cons f fs)
  obtain out' g' where pf: "process_file cfg w f g out = (out', g')"
    by (cases "process_file cfg w f g out")
  have step: "set (wrap_calls out') \<subseteq> set (wrap_calls out) \<union> set (file_calls cfg w f)"
  proof (cases "file_ok cfg w f")
    case True
    from process_file_ok [OF True, of g out] pf obtain sh where
      "wrap_calls out' = wrap_calls out @ sh" "mset sh = mset (file_calls cfg w f)"
      by auto
    then show ?thesis by (auto dest: mset_eq_setD)
  next
    case False
    from process_file_fail [OF False, of g out] pf show ?thesis by simp
  qed
  show ?case
  proof (cases "raised out' = None")
    case True
    with pf have "process_files cfg w (f # fs) g out = process_files cfg w fs g' out'"
      by simp
    with Cons.IH [of g' out'] step show ?thesis by auto
  next
    case False
    with pf have "process_files cfg w (f # fs) g out = out'" by simp
    with step show ?thesis by auto
  qed
qed

lemma mset_concat_map_cong:
  assumes "mset xs = mset ys"
  shows "mset (concat (map h xs)) = mset (concat (map h ys))"
proof -
  have "mset (concat (map h zs)) = (\<Sum>z \<in># mset zs. mset (h z))" for zs
    by (induction zs) simp_all
  with assms show ?thesis by simp
qed

lemma discover_returns:
  obtains d where "discover raw tree = Inr d"
  using discover_props [of raw tree] by blast

lemma main_unfold:
  "\<exists>d files g'. discover (raw_cohort_dir cfg) tree = Inr d
     \<and> mset files = mset (input_files_to_subshard d)
     \<and> main cfg w tree g
         = process_files cfg w files g'
             \<lparr>warnings = skip_warnings d, made_dirs = [], wrap_calls = [], raised = None\<rparr>"
proof -
  obtain d where d: "discover (raw_cohort_dir cfg) tree = Inr d"
    by (rule discover_returns)
  obtain files g' where sh: "shuffle g (input_files_to_subshard d) = (files, g')"
    by (cases "shuffle g (input_files_to_subshard d)")
  with shuffle_mset [of g "input_files_to_subshard d"]
  have "mset files = mset (input_files_to_subshard d)" by simp
  moreover from d sh have "main cfg w tree g
         = process_files cfg w files g'
             \<lparr>warnings = skip_warnings d, made_dirs = [], wrap_calls = [], raised = None\<rparr>"
    by (simp add: main_def)
  ultimately show ?thesis
    using d by blast
qed

text \<open>
  Modelled from the spec: the Safe Compute Wrapper (\<^verbatim>\<open>rwlock_wrap\<close>, imported from
  \<^verbatim>\<open>MEDS_polars_functions.mapper\<close>) is not among the sources. By its contract, on success the
  output path holds the materialised \<^verbatim>\<open>transform_fn(read_fn(input_path))\<close>; with the arguments of
  line 126 that is the collected row chunk of the scanned input file.
\<close>

definition target_content :: "world \<Rightarrow> wrap_call \<Rightarrow> error + DataFrame" where
  "target_content w c =
     (case snd (scan_with_row_idx w (wc_input c)) of
        Inl e \<Rightarrow> Inl e
      | Inr df \<Rightarrow> collect w (filter_to_row_chunk df (wc_start c) (wc_end c)))"

section \<open>The compressed-CSV case cannot be reached\<close>

text \<open>A suffix is empty or has its only dot in front, so no path has a suffix that lowers to
  \<^verbatim>\<open>.csv.gz\<close>: \<^verbatim>\<open>scan_with_row_idx\<close> never logs the warning of line 24.\<close>

lemma rfind_after:
  "0 \<le> rfind c s \<Longrightarrow> c \<notin> set (drop (nat (rfind c s) + 1) s)"
proof (induction s)
  case Nil
  then show ?case by simp
next
  case (Cons x xs)
  show ?case
  proof (cases "0 \<le> rfind c xs")
    case True
    then have "nat (rfind c xs + 1) = Suc (nat (rfind c xs))" by simp
    with True Cons.IH show ?thesis by (simp add: Let_def)
  next
    case False
    then have "rfind c xs = - 1" by (rule rfind_neg)
    moreover have "c \<notin> set xs" using False
      by (induction xs) (auto simp: Let_def split: if_splits)
    ultimately show ?thesis using Cons.prems by (simp add: Let_def split: if_splits)
  qed
qed

lemma rfind_at:
  "0 \<le> rfind c s \<Longrightarrow> nat (rfind c s) < length s \<and> s ! nat (rfind c s) = c"
proof (induction s)
  case Nil
  then show ?case by simp
next
  case (Cons x xs)
  show ?case
  proof (cases "0 \<le> rfind c xs")
    case True
    then have "nat (rfind c xs + 1) = Suc (nat (rfind c xs))" by simp
    with True Cons.IH show ?thesis by (simp add: Let_def)
  next
    case False
    with Cons.prems show ?thesis by (simp add: Let_def split: if_splits)
  qed
qed

lemma path_suffix_one_dot:
  "path_suffix p = [] \<or> (\<exists>t. path_suffix p = CHR ''.'' # t \<and> CHR ''.'' \<notin> set t)"
proof (cases "0 < rfind CHR ''.'' (path_name p) \<and> rfind CHR ''.'' (path_name p) < int (length (path_name p)) - 1")
  case False
  then show ?thesis by (auto simp: path_suffix_def Let_def)
next
  case True
  let ?n = "path_name p" and ?i = "nat (rfind CHR ''.'' (path_name p))"
  from True have nn: "0 \<le> rfind CHR ''.'' ?n" by simp
  from rfind_at [OF nn] have lt: "?i < length ?n" and at: "?n ! ?i = CHR ''.''" by simp_all
  from lt have "drop ?i ?n = ?n ! ?i # drop (Suc ?i) ?n"
    by (simp add: Cons_nth_drop_Suc)
  moreover from rfind_after [OF nn] have "CHR ''.'' \<notin> set (drop (Suc ?i) ?n)" by simp
  moreover from True have "path_suffix p = drop ?i ?n"
    by (simp add: path_suffix_def Let_def)
  ultimately show ?thesis using at by simp
qed

lemma lower_char_dot:
  assumes "lower_char c = CHR ''.''"
  shows "c = CHR ''.''"
proof (cases "65 \<le> (of_char c :: nat) \<and> (of_char c :: nat) \<le> 90")
  case True
  then have "(of_char (lower_char c) :: nat) = (of_char c + 32) mod 256"
    by (simp add: lower_char_def Let_def)
  also from True have "\<dots> = of_char c + 32" by simp
  finally have "(of_char (lower_char c) :: nat) \<noteq> 46" using True by simp
  with assms show ?thesis by simp
next
  case False
  with assms show ?thesis by (auto simp: lower_char_def Let_def)
qed

lemma csv_gz_case_unreachable: "lower (path_suffix fp) \<noteq> ''.csv.gz''"
proof
  assume a: "lower (path_suffix fp) = ''.csv.gz''"
  then have "path_suffix fp \<noteq> []" by (auto simp: lower_def)
  with path_suffix_one_dot [of fp] obtain t where
    t: "path_suffix fp = CHR ''.'' # t" and nd: "CHR ''.'' \<notin> set t" by blast
  from a t have "map lower_char t = ''csv.gz''" by (simp add: lower_def)
  then obtain a b c d e f where "t = [a, b, c, d, e, f]" "lower_char d = CHR ''.''"
    by (auto simp: map_eq_Cons_conv)
  with nd lower_char_dot show False by auto
qed

lemma scan_with_row_idx_quiet: "fst (scan_with_row_idx w fp) = []"
  by (simp add: scan_with_row_idx_def Let_def csv_gz_case_unreachable)

lemma file_calls_input: "c \<in> set (file_calls cfg w f) \<Longrightarrow> wc_input c = f"
  by (auto simp: file_calls_def mk_call_def split: sum.splits)

lemma main_calls_subset:
  "set (wrap_calls (main cfg w tree g)) \<subseteq> (\<Union>f. set (file_calls cfg w f))"
proof -
  from main_unfold [of cfg tree w g] obtain d files g' where
    "discover (raw_cohort_dir cfg) tree = Inr d"
    "mset files = mset (input_files_to_subshard d)"
    "main cfg w tree g = process_files cfg w files g'
       \<lparr>warnings = skip_warnings d, made_dirs = [], wrap_calls = [], raised = None\<rparr>"
    by blast
  with process_files_calls_subset [of cfg w files g'
      "\<lparr>warnings = skip_warnings d, made_dirs = [], wrap_calls = [], raised = None\<rparr>"]
  show ?thesis by auto
qed

text \<open>
  C8. Take a file under the raw root that scans and whose row count is zero, and a chunk size other
  than zero (the configuration asks for a positive one). Then the range of its chunk starts is
  empty, the loop body issues no wrapper call and raises nothing, and no wrapper call of a whole
  run, over any tree and random sequence, has this file as its input.
\<close>

theorem zero_rows_zero_work:
  assumes "get_shard_prefix (raw_cohort_dir cfg) f = Inr pre"
    and "scan_with_row_idx w f = (ws, Inr df)"
    and "row_count w df = Inr 0"
    and "row_chunksize cfg \<noteq> 0"
  shows "py_range 0 0 (row_chunksize cfg) = Inr []
       \<and> wrap_calls (fst (process_file cfg w f g out)) = wrap_calls out
       \<and> raised (fst (process_file cfg w f g out)) = raised out
       \<and> (\<forall>c \<in> set (wrap_calls (main cfg w tree g')). wc_input c \<noteq> f)"
proof -
  have r: "py_range 0 0 (row_chunksize cfg) = Inr []"
    using assms(4) by (simp add: py_range_def range_length_def)
  have "process_file cfg w f g out
          = (out\<lparr>made_dirs := made_dirs out
                     @ [joinpath (joinpath (MEDS_cohort_dir cfg) ''sub_sharded'') pre],
                  warnings := warnings out @ ws\<rparr>, g)"
    by (simp add: process_file_def assms(1-3) r Let_def shuffle_def)
  moreover have "file_calls cfg w f = []"
    by (simp add: file_calls_def file_chunks_def assms(1-3) r)
  then have none: "\<forall>c \<in> set (wrap_calls (main cfg w tree g')). wc_input c \<noteq> f"
  proof (intro ballI notI)
    fix c
    assume e: "file_calls cfg w f = []" and c: "c \<in> set (wrap_calls (main cfg w tree g'))"
      and i: "wc_input c = f"
    from c main_calls_subset [of cfg w tree g'] obtain f' where f': "c \<in> set (file_calls cfg w f')"
      by blast
    then have "wc_input c = f'" by (rule file_calls_input)
    with i f' e show False by simp
  qed
  ultimately show ?thesis
    using r by simp
qed

text \<open>
  C10. Nothing checks the chunk size: a run over an empty tree ends without an exception whatever
  the chunk size is. For a file that scans and has at least one row, a chunk size of zero makes
  the range of line 115 raise, which ends the run with that \<^verbatim>\<open>ValueError\<close> before any wrapper
  call for the file; a negative chunk size gives an empty range, so the body issues no wrapper
  call, raises nothing and logs no warning.
\<close>

theorem chunksize_never_validated:
  assumes "get_shard_prefix (raw_cohort_dir cfg) f = Inr pre"
    and "scan_with_row_idx w f = (ws, Inr df)"
    and "row_count w df = Inr R"
    and "0 < R"
  shows "(row_chunksize cfg = 0 \<longrightarrow>
            py_range 0 R (row_chunksize cfg) = Inl (ValueError ''range() arg 3 must not be zero'')
          \<and> raised (fst (process_file cfg w f g out))
              = Some (ValueError ''range() arg 3 must not be zero'')
          \<and> wrap_calls (fst (process_file cfg w f g out)) = wrap_calls out)
       \<and> (row_chunksize cfg < 0 \<longrightarrow>
            py_range 0 R (row_chunksize cfg) = Inr []
          \<and> raised (fst (process_file cfg w f g out)) = raised out
          \<and> wrap_calls (fst (process_file cfg w f g out)) = wrap_calls out
          \<and> warnings (fst (process_file cfg w f g out)) = warnings out)
       \<and> raised (main cfg w [] g) = None"
proof -
  from assms(2) scan_with_row_idx_quiet [of w f] have ws: "ws = []" by simp
  have zero: "py_range 0 R 0 = Inl (ValueError ''range() arg 3 must not be zero'')"
    by (simp add: py_range_def)
  have neg: "py_range 0 R c = Inr []" if "c < 0" for c
    using that assms(4) by (simp add: py_range_def range_length_def)
  have "raised (main cfg w [] g) = None"
    by (simp add: main_def discover_def formats_def glob_def shuffle_def)
  then show ?thesis
    using zero neg ws
    by (auto simp: process_file_def assms(1-3) Let_def shuffle_def)
qed

section \<open>The layout of the output paths\<close>

text \<open>
  A part of a path as a directory listing yields it: not empty, not the single dot, and without
  a slash.
\<close>

definition clean_part :: "string \<Rightarrow> bool" where
  "clean_part s = (s \<noteq> [] \<and> s \<noteq> ''.'' \<and> CHR ''/'' \<notin> set s)"

text \<open>The shard identity of a relative path, as a path: its directory, then the file name cut at
  its first dot (nothing when the name starts with a dot).\<close>

definition shard_dir :: "path \<Rightarrow> path" where
  "shard_dir rel =
     butlast rel @ (if first_part (last rel) = [] then [] else [first_part (last rel)])"

lemma str_split_nonempty: "str_split c s \<noteq> []"
  by (induction s) (auto split: list.splits)

lemma str_split_none: "c \<notin> set s \<Longrightarrow> str_split c s = [s]"
  by (induction s) (auto split: list.splits)

lemma str_split_sep:
  "c \<notin> set a \<Longrightarrow> str_split c (a @ c # rest) = a # str_split c rest"
  by (induction a) (auto split: list.splits simp: str_split_nonempty)

lemma str_split_join:
  assumes "comps \<noteq> []" and "\<forall>p \<in> set comps. CHR ''/'' \<notin> set p"
  shows "str_split CHR ''/'' (str_join ''/'' comps) = comps"
  using assms
proof (induction "''/''" comps rule: str_join.induct)
  case 1
  then show ?case by simp
next
  case (2 x)
  then show ?case by (simp add: str_split_none)
next
  case (3 x y ys)
  then show ?case by (simp add: str_split_sep)
qed

lemma str_join_hd:
  assumes "comps \<noteq> []" and "hd comps \<noteq> []"
  shows "str_join sep comps \<noteq> [] \<and> hd (str_join sep comps) = hd (hd comps)"
  using assms by (induction sep comps rule: str_join.induct) auto

lemma joinpath_relative:
  "s \<noteq> [] \<Longrightarrow> hd s \<noteq> CHR ''/'' \<Longrightarrow> joinpath base s = base @ parse_parts s"
  by (cases s) (simp_all add: joinpath_def)

lemma clean_part_hd:
  assumes "clean_part x"
  shows "x \<noteq> []" and "x \<noteq> ''/''" and "hd x \<noteq> CHR ''/''" and "CHR ''/'' \<notin> set x"
proof -
  from assms show ne: "x \<noteq> []" and ns: "CHR ''/'' \<notin> set x"
    by (simp_all add: clean_part_def)
  from ns show "x \<noteq> ''/''" by auto
  from ne have "hd x \<in> set x" by (rule hd_in_set)
  with ns show "hd x \<noteq> CHR ''/''" by metis
qed

lemma joinpath_str_path:
  assumes "\<forall>p \<in> set comps. clean_part p"
  shows "joinpath base (str_path comps) = base @ comps"
proof (cases comps)
  case Nil
  then show ?thesis
    by (simp add: str_path_def joinpath_def parse_parts_def)
next
  case (Cons x xs)
  with assms have cx: "clean_part x" by simp
  from assms have nos: "\<forall>p \<in> set comps. CHR ''/'' \<notin> set p"
    by (simp add: clean_part_def)
  from assms have keep: "\<forall>p \<in> set comps. p \<noteq> [] \<and> p \<noteq> ''.''"
    by (simp add: clean_part_def)
  have sp: "str_path comps = str_join ''/'' comps"
    using Cons clean_part_hd(2) [OF cx] by (simp add: str_path_def)
  from str_join_hd [of comps "''/''"] Cons clean_part_hd(1,3) [OF cx]
  have ne: "str_join ''/'' comps \<noteq> []" and h: "hd (str_join ''/'' comps) \<noteq> CHR ''/''"
    by simp_all
  have "comps \<noteq> []" using Cons by simp
  from str_split_join [OF this nos]
  have "parse_parts (str_join ''/'' comps) = filter (\<lambda>c. c \<noteq> [] \<and> c \<noteq> ''.'') comps"
    by (simp only: parse_parts_def)
  also from keep have "\<dots> = comps" by (rule filter_True)
  finally show ?thesis
    unfolding sp joinpath_relative [OF ne h] by (simp only:)
qed

lemma joinpath_clean: "clean_part s \<Longrightarrow> joinpath base s = base @ [s]"
  using joinpath_str_path [of "[s]" base] by (simp add: str_path_def clean_part_def split: if_splits)


lemma digit_char_set: "d < 10 \<Longrightarrow> digit_char d \<in> set ''0123456789''"
  unfolding digit_char_def by (rule nth_mem) simp

lemma str_nat_digits: "set (str_nat n) \<subseteq> set ''0123456789''"
proof (induction n rule: str_nat.induct)
  case (1 n)
  show ?case
  proof (cases "n < 10")
    case True
    with digit_char_set [of n] show ?thesis
      by (subst str_nat.simps) simp
  next
    case False
    have "n mod 10 < 10" by simp
    from digit_char_set [OF this] 1 [OF False] False show ?thesis
      by (subst str_nat.simps) simp
  qed
qed

lemma str_int_no_slash: "CHR ''/'' \<notin> set (str_int i)"
  using str_nat_digits [of "nat i"] str_nat_digits [of "nat (- i)"]
  by (auto simp: str_int_def)

lemma chunk_name_clean: "clean_part (chunk_name st en)"
  using str_int_no_slash [of st] str_int_no_slash [of en]
  by (simp add: chunk_name_def clean_part_def)

lemma first_part_clean:
  assumes "clean_part name" and "first_part name \<noteq> []"
  shows "clean_part (first_part name)"
proof -
  have "set (first_part name) \<subseteq> set name"
    unfolding first_part_takeWhile by (auto dest: set_takeWhileD)
  moreover have "CHR ''.'' \<notin> set (first_part name)"
    unfolding first_part_takeWhile by (auto dest: set_takeWhileD)
  then have "first_part name \<noteq> ''.''" by auto
  ultimately show ?thesis
    using assms by (auto simp: clean_part_def)
qed

lemma shard_dir_clean:
  assumes "rel \<noteq> []" and "\<forall>p \<in> set rel. clean_part p"
  shows "\<forall>p \<in> set (shard_dir rel). clean_part p"
proof -
  from assms have "clean_part (last rel)" by simp
  then have "first_part (last rel) \<noteq> [] \<Longrightarrow> clean_part (first_part (last rel))"
    by (rule first_part_clean)
  moreover from assms have "\<forall>p \<in> set (butlast rel). clean_part p"
    by (auto dest: in_set_butlastD)
  ultimately show ?thesis
    by (auto simp: shard_dir_def)
qed

lemma get_shard_prefix_clean:
  assumes "rel \<noteq> []" and "\<forall>p \<in> set rel. clean_part p"
  shows "get_shard_prefix raw (raw @ rel) = Inr (str_path (shard_dir rel))"
proof -
  from assms(1) obtain dir name where rel: "rel = dir @ [name]"
    by (cases rel rule: rev_cases) auto
  with assms(2) have cn: "clean_part name" by simp
  then have n: "name \<noteq> ''/''" by (auto simp: clean_part_def)
  have "joinpath dir (first_part name)
          = dir @ (if first_part name = [] then [] else [first_part name])"
  proof (cases "first_part name = []")
    case True
    then show ?thesis by (simp add: joinpath_def)
  next
    case False
    from first_part_clean [OF cn False] have "joinpath dir (first_part name) = dir @ [first_part name]"
      by (rule joinpath_clean)
    with False show ?thesis by simp
  qed
  then show ?thesis
    using get_shard_prefix_file [OF n, of raw dir]
    by (simp add: rel shard_dir_def first_part_takeWhile)
qed

lemma mk_call_output:
  assumes "rel \<noteq> []" and "\<forall>p \<in> set rel. clean_part p"
  shows "wc_output (mk_call cfg f (str_path (shard_dir rel)) n st)
           = MEDS_cohort_dir cfg @ [''sub_sharded''] @ shard_dir rel
               @ [chunk_name st (chunk_end (row_chunksize cfg) n st)]"
proof -
  have a: "joinpath (MEDS_cohort_dir cfg) ''sub_sharded'' = MEDS_cohort_dir cfg @ [''sub_sharded'']"
    by (simp add: joinpath_def parse_parts_def)
  show ?thesis
    by (simp add: mk_call_def a joinpath_str_path [OF shard_dir_clean [OF assms]]
        joinpath_clean [OF chunk_name_clean])
qed


lemma candidates_rel:
  assumes "f \<in> set (candidates raw tree)"
  obtains rel where "rel \<in> set tree" "f = raw @ rel"
  using assms by (auto simp: candidates_def glob_def)

lemma accepted_candidates:
  assumes "discover raw tree = Inr d"
  shows "set (input_files_to_subshard d) \<subseteq> set (candidates raw tree)"
proof -
  from discover_props [of raw tree] assms obtain rejected where
    "mset (input_files_to_subshard d) + mset rejected = mset (candidates raw tree)"
    by auto
  then have "set_mset (mset (input_files_to_subshard d)) \<subseteq> set_mset (mset (candidates raw tree))"
    by (metis mset_subset_eq_add_left set_mset_mono)
  then show ?thesis by simp
qed

lemma main_calls_from:
  assumes "c \<in> set (wrap_calls (main cfg w tree g))"
    and "discover (raw_cohort_dir cfg) tree = Inr d"
  obtains f where "f \<in> set (input_files_to_subshard d)" "c \<in> set (file_calls cfg w f)"
proof -
  from main_unfold [of cfg tree w g] assms(2) obtain files g' where
    m: "mset files = mset (input_files_to_subshard d)"
    and r: "main cfg w tree g = process_files cfg w files g'
       \<lparr>warnings = skip_warnings d, made_dirs = [], wrap_calls = [], raised = None\<rparr>"
    by auto
  from m have "set files = set (input_files_to_subshard d)" by (rule mset_eq_setD)
  with assms(1) process_files_calls_subset [of cfg w files g'
      "\<lparr>warnings = skip_warnings d, made_dirs = [], wrap_calls = [], raised = None\<rparr>"]
  show ?thesis unfolding r by (auto intro: that)
qed

lemma main_calls_complete:
  assumes "raised (main cfg w tree g) = None"
    and "discover (raw_cohort_dir cfg) tree = Inr d"
    and "f \<in> set (input_files_to_subshard d)"
  shows "file_ok cfg w f \<and> set (file_calls cfg w f) \<subseteq> set (wrap_calls (main cfg w tree g))"
proof -
  let ?out0 = "\<lparr>warnings = skip_warnings d, made_dirs = [], wrap_calls = [], raised = None\<rparr>"
  from main_unfold [of cfg tree w g] assms(2) obtain files g' where
    m: "mset files = mset (input_files_to_subshard d)"
    and r: "main cfg w tree g = process_files cfg w files g' ?out0"
    by auto
  from m have s: "set files = set (input_files_to_subshard d)" by (rule mset_eq_setD)
  have ok: "\<forall>f \<in> set files. file_ok cfg w f"
    using assms(1) process_files_fail [of files cfg w g' ?out0] unfolding r by blast
  have "raised ?out0 = None" by simp
  from process_files_ok [OF ok this, of g', folded r]
  have "mset (wrap_calls (main cfg w tree g)) = mset (concat (map (file_calls cfg w) files))"
    by simp
  then have "set (wrap_calls (main cfg w tree g)) = set (concat (map (file_calls cfg w) files))"
    by (rule mset_eq_setD)
  with assms(3) s ok show ?thesis by auto
qed

lemma file_calls_elem:
  assumes "c \<in> set (file_calls cfg w f)"
  shows "\<exists>pre n starts st. get_shard_prefix (raw_cohort_dir cfg) f = Inr pre
           \<and> file_chunks cfg w f = Inr (n, starts) \<and> st \<in> set starts
           \<and> c = mk_call cfg f pre n st"
proof (cases "get_shard_prefix (raw_cohort_dir cfg) f")
  case (Inl e)
  with assms show ?thesis by (simp add: file_calls_def)
next
  case (Inr pre)
  show ?thesis
  proof (cases "file_chunks cfg w f")
    case (Inl e)
    with assms Inr show ?thesis by (simp add: file_calls_def)
  next
    case r: (Inr x)
    obtain n starts where x: "x = (n, starts)" by (cases x)
    from assms Inr r x have "c \<in> mk_call cfg f pre n ` set starts"
      by (simp add: file_calls_def)
    with Inr r x show ?thesis by blast
  qed
qed

text \<open>
  C6, with the identity the code computes. Let the parts of the tree's paths be clean. Every
  wrapper call of a run has an accepted file under the raw root as its input, a chunk start of
  that file's range as its start and the chunk's end as its end, and its output path is the output
  root, then \<^verbatim>\<open>sub_sharded\<close>, then the file's directory and its name cut at the first dot, then
  \<^verbatim>\<open>[start-end).parquet\<close>. When the run raises nothing, every chunk of every accepted file has
  its wrapper call.
\<close>

theorem output_path_layout:
  assumes "\<forall>rel \<in> set tree. rel \<noteq> [] \<and> (\<forall>p \<in> set rel. clean_part p)"
  shows "\<exists>d. discover (raw_cohort_dir cfg) tree = Inr d
     \<and> (\<forall>c \<in> set (wrap_calls (main cfg w tree g)).
           \<exists>rel n starts. rel \<in> set tree
             \<and> wc_input c = raw_cohort_dir cfg @ rel
             \<and> wc_input c \<in> set (input_files_to_subshard d)
             \<and> file_chunks cfg w (wc_input c) = Inr (n, starts)
             \<and> wc_start c \<in> set starts
             \<and> wc_end c = chunk_end (row_chunksize cfg) n (wc_start c)
             \<and> wc_output c = MEDS_cohort_dir cfg @ [''sub_sharded''] @ shard_dir rel
                               @ [chunk_name (wc_start c) (wc_end c)])
     \<and> (raised (main cfg w tree g) = None \<longrightarrow>
           (\<forall>f \<in> set (input_files_to_subshard d).
              \<exists>n starts. file_chunks cfg w f = Inr (n, starts)
                \<and> (\<forall>st \<in> set starts. \<exists>c \<in> set (wrap_calls (main cfg w tree g)).
                      wc_input c = f \<and> wc_start c = st)))"
proof -
  obtain d where d: "discover (raw_cohort_dir cfg) tree = Inr d"
    by (rule discover_returns)
  have sound: "\<exists>rel n starts. rel \<in> set tree
             \<and> wc_input c = raw_cohort_dir cfg @ rel
             \<and> wc_input c \<in> set (input_files_to_subshard d)
             \<and> file_chunks cfg w (wc_input c) = Inr (n, starts)
             \<and> wc_start c \<in> set starts
             \<and> wc_end c = chunk_end (row_chunksize cfg) n (wc_start c)
             \<and> wc_output c = MEDS_cohort_dir cfg @ [''sub_sharded''] @ shard_dir rel
                               @ [chunk_name (wc_start c) (wc_end c)]"
    if c: "c \<in> set (wrap_calls (main cfg w tree g))" for c
  proof -
    from c d obtain f where f: "f \<in> set (input_files_to_subshard d)"
      and cf: "c \<in> set (file_calls cfg w f)"
      by (rule main_calls_from)
    from f accepted_candidates [OF d] have "f \<in> set (candidates (raw_cohort_dir cfg) tree)"
      by blast
    then obtain rel where rel: "rel \<in> set tree" "f = raw_cohort_dir cfg @ rel"
      by (rule candidates_rel)
    with assms have cl: "rel \<noteq> []" "\<forall>p \<in> set rel. clean_part p" by auto
    have pre: "get_shard_prefix (raw_cohort_dir cfg) f = Inr (str_path (shard_dir rel))"
      unfolding rel(2) by (rule get_shard_prefix_clean [OF cl])
    from file_calls_elem [OF cf] pre obtain n starts st where
      fc: "file_chunks cfg w f = Inr (n, starts)" and st: "st \<in> set starts"
      and c_eq: "c = mk_call cfg f (str_path (shard_dir rel)) n st"
      by auto
    have i: "wc_input c = f" "wc_start c = st"
      "wc_end c = chunk_end (row_chunksize cfg) n st"
      by (simp_all add: c_eq mk_call_def)
    have o: "wc_output c = MEDS_cohort_dir cfg @ [''sub_sharded''] @ shard_dir rel
                               @ [chunk_name st (chunk_end (row_chunksize cfg) n st)]"
      unfolding c_eq by (rule mk_call_output [OF cl])
    from rel f fc st i o show ?thesis by auto
  qed
  have complete: "\<exists>n starts. file_chunks cfg w f = Inr (n, starts)
                \<and> (\<forall>st \<in> set starts. \<exists>c \<in> set (wrap_calls (main cfg w tree g)).
                      wc_input c = f \<and> wc_start c = st)"
    if r: "raised (main cfg w tree g) = None" and f: "f \<in> set (input_files_to_subshard d)" for f
  proof -
    from main_calls_complete [OF r d f]
    have ok: "file_ok cfg w f"
      and sub: "set (file_calls cfg w f) \<subseteq> set (wrap_calls (main cfg w tree g))"
      by simp_all
    from ok obtain pre n starts where
      fc: "file_chunks cfg w f = Inr (n, starts)"
      and calls: "file_calls cfg w f = map (mk_call cfg f pre n) starts"
      by (rule file_ok_cases)
    have "\<exists>c \<in> set (wrap_calls (main cfg w tree g)). wc_input c = f \<and> wc_start c = st"
      if "st \<in> set starts" for st
    proof -
      from that calls sub have "mk_call cfg f pre n st \<in> set (wrap_calls (main cfg w tree g))"
        by auto
      moreover have "wc_input (mk_call cfg f pre n st) = f" "wc_start (mk_call cfg f pre n st) = st"
        by (simp_all add: mk_call_def)
      ultimately show ?thesis by blast
    qed
    with fc show ?thesis by blast
  qed
  from d sound complete show ?thesis by blast
qed

section \<open>The output targets of a run are pairwise different\<close>

lemma str_nat_nonempty: "str_nat n \<noteq> []"
  by (subst str_nat.simps) simp

lemma digit_char_inj:
  assumes "a < 10" and "b < 10" and "digit_char a = digit_char b"
  shows "a = b"
proof -
  have "distinct ''0123456789''" by simp
  moreover have "a < length ''0123456789''" "b < length ''0123456789''"
    using assms by simp_all
  ultimately show ?thesis
    using assms(3) unfolding digit_char_def by (simp only: nth_eq_iff_index_eq)
qed

lemma str_nat_inj: "str_nat n = str_nat m \<Longrightarrow> n = m"
proof (induction n arbitrary: m rule: str_nat.induct)
  case (1 n)
  show ?case
  proof (cases "n < 10")
    case small: True
    show ?thesis
    proof (cases "m < 10")
      case True
      from 1(2) small True have "digit_char n = digit_char m"
        by (simp add: str_nat.simps [of n] str_nat.simps [of m])
      with small True show ?thesis by (rule digit_char_inj)
    next
      case False
      from 1(2) small False str_nat_nonempty [of "m div 10"] show ?thesis
        by (simp add: str_nat.simps [of n] str_nat.simps [of m])
    qed
  next
    case big: False
    show ?thesis
    proof (cases "m < 10")
      case True
      from 1(2) big True str_nat_nonempty [of "n div 10"] show ?thesis
        by (simp add: str_nat.simps [of n] str_nat.simps [of m])
    next
      case False
      from 1(2) big False have e: "str_nat (n div 10) = str_nat (m div 10)"
        and d: "digit_char (n mod 10) = digit_char (m mod 10)"
        by (simp_all add: str_nat.simps [of n] str_nat.simps [of m])
      from 1(1) [OF big e] have "n div 10 = m div 10" .
      moreover from d have "n mod 10 = m mod 10"
        by (intro digit_char_inj) simp_all
      ultimately show ?thesis
        by (metis div_mult_mod_eq)
    qed
  qed
qed

lemma before_sep_eq:
  assumes "c \<notin> set a" and "c \<notin> set b" and "a @ c # r = b @ c # s"
  shows "a = b"
proof -
  have t: "takeWhile (\<lambda>x. x \<noteq> c) (xs @ c # ys) = xs" if "c \<notin> set xs" for xs ys
    using that by (induction xs) auto
  from t [OF assms(1), of r] t [OF assms(2), of s] assms(3) show ?thesis by simp
qed

lemma chunk_name_inj:
  assumes "0 \<le> st" and "0 \<le> st'" and "chunk_name st en = chunk_name st' en'"
  shows "st = st'"
proof -
  have nd: "CHR ''-'' \<notin> set (str_nat k)" for k
    using str_nat_digits [of k] by auto
  from assms have "str_nat (nat st) @ CHR ''-'' # (str_int en @ '').parquet'')
                     = str_nat (nat st') @ CHR ''-'' # (str_int en' @ '').parquet'')"
    by (simp add: chunk_name_def str_int_def)
  from before_sep_eq [OF nd nd this] have "nat st = nat st'" by (rule str_nat_inj)
  with assms(1,2) show ?thesis by simp
qed


lemma row_count_nonneg: "row_count w df = Inr n \<Longrightarrow> 0 \<le> n"
  by (auto simp: row_count_def split: sum.splits)

lemma py_range_starts:
  assumes "py_range 0 n c = Inr starts" and "0 \<le> n"
  shows "distinct starts \<and> (\<forall>st \<in> set starts. 0 \<le> st)"
proof (cases "0 < c")
  case True
  have "inj_on (\<lambda>k. int k * c) (set [0..<nat ((n + c - 1) div c)])"
    using True by (auto intro!: inj_onI)
  then have "distinct (map (\<lambda>k. int k * c) [0..<nat ((n + c - 1) div c)])"
    by (simp add: distinct_map)
  moreover have "\<forall>st \<in> set (map (\<lambda>k. int k * c) [0..<nat ((n + c - 1) div c)]). 0 \<le> st"
    using True by auto
  moreover from assms(1) py_range_pos [OF True, of n]
  have "starts = map (\<lambda>k. int k * c) [0..<nat ((n + c - 1) div c)]" by simp
  ultimately show ?thesis by (simp only:)
next
  case False
  with assms show ?thesis
    by (auto simp: py_range_def range_length_def Let_def split: if_splits)
qed

lemma file_chunks_starts:
  assumes "file_chunks cfg w f = Inr (n, starts)"
  shows "distinct starts \<and> (\<forall>st \<in> set starts. 0 \<le> st)"
proof -
  from assms obtain df where "row_count w df = Inr n"
    and r: "py_range 0 n (row_chunksize cfg) = Inr starts"
    by (auto simp: file_chunks_def split: sum.splits)
  then have "0 \<le> n" by (intro row_count_nonneg)
  with r show ?thesis by (intro py_range_starts)
qed

lemma file_outputs_distinct:
  assumes "rel \<noteq> []" and "\<forall>p \<in> set rel. clean_part p"
  shows "distinct (map wc_output (file_calls cfg w (raw_cohort_dir cfg @ rel)))"
proof (cases "file_chunks cfg w (raw_cohort_dir cfg @ rel)")
  case (Inl e)
  then show ?thesis
    by (simp add: file_calls_def split: sum.splits)
next
  case (Inr x)
  obtain n starts where x: "x = (n, starts)" by (cases x)
  let ?f = "raw_cohort_dir cfg @ rel"
  let ?out = "\<lambda>st. MEDS_cohort_dir cfg @ [''sub_sharded''] @ shard_dir rel
               @ [chunk_name st (chunk_end (row_chunksize cfg) n st)]"
  from Inr x file_chunks_starts [of cfg w ?f n starts]
  have ds: "distinct starts" and nn: "\<forall>st \<in> set starts. 0 \<le> st" by simp_all
  have calls: "map wc_output (file_calls cfg w ?f) = map ?out starts"
    by (simp add: file_calls_def Inr x get_shard_prefix_clean [OF assms]
        mk_call_output [OF assms] comp_def)
  have "inj_on ?out (set starts)"
  proof (rule inj_onI)
    fix a b
    assume "a \<in> set starts" "b \<in> set starts" "?out a = ?out b"
    with nn have "0 \<le> a" "0 \<le> b"
      "chunk_name a (chunk_end (row_chunksize cfg) n a)
         = chunk_name b (chunk_end (row_chunksize cfg) n b)"
      by simp_all
    then show "a = b" by (rule chunk_name_inj)
  qed
  with ds show ?thesis
    unfolding calls by (simp add: distinct_map)
qed

lemma file_outputs_identity:
  assumes "rel1 \<noteq> []" and "\<forall>p \<in> set rel1. clean_part p"
    and "rel2 \<noteq> []" and "\<forall>p \<in> set rel2. clean_part p"
    and "c1 \<in> set (file_calls cfg w (raw_cohort_dir cfg @ rel1))"
    and "c2 \<in> set (file_calls cfg w (raw_cohort_dir cfg @ rel2))"
    and "wc_output c1 = wc_output c2"
  shows "get_shard_prefix (raw_cohort_dir cfg) (raw_cohort_dir cfg @ rel1)
           = get_shard_prefix (raw_cohort_dir cfg) (raw_cohort_dir cfg @ rel2)"
proof -
  from file_calls_elem [OF assms(5)] get_shard_prefix_clean [OF assms(1,2), of "raw_cohort_dir cfg"]
  obtain n1 st1 where c1: "c1 = mk_call cfg (raw_cohort_dir cfg @ rel1) (str_path (shard_dir rel1)) n1 st1"
    by auto
  from file_calls_elem [OF assms(6)] get_shard_prefix_clean [OF assms(3,4), of "raw_cohort_dir cfg"]
  obtain n2 st2 where c2: "c2 = mk_call cfg (raw_cohort_dir cfg @ rel2) (str_path (shard_dir rel2)) n2 st2"
    by auto
  from assms(7) have "shard_dir rel1 = shard_dir rel2"
    unfolding c1 c2 mk_call_output [OF assms(1,2)] mk_call_output [OF assms(3,4)]
    by simp
  then show ?thesis
    by (simp add: get_shard_prefix_clean [OF assms(1,2)] get_shard_prefix_clean [OF assms(3,4)])
qed

lemma distinct_concat_map:
  assumes "distinct fs"
    and "\<forall>f \<in> set fs. distinct (h f)"
    and "\<forall>f \<in> set fs. \<forall>g \<in> set fs. f \<noteq> g \<longrightarrow> set (h f) \<inter> set (h g) = {}"
  shows "distinct (concat (map h fs))"
  using assms
proof (induction fs)
  case Nil
  show ?case by simp
next
  case (Cons f fs)
  then have "distinct (concat (map h fs))" by simp
  moreover from Cons.prems have "distinct (h f)" by simp
  moreover have "set (h f) \<inter> set (concat (map h fs)) = {}"
  proof -
    have "set (h f) \<inter> set (h g) = {}" if "g \<in> set fs" for g
    proof -
      from that Cons.prems(1) have "f \<noteq> g" by auto
      with that Cons.prems(3) show ?thesis by simp
    qed
    then show ?thesis by auto
  qed
  ultimately show ?case by simp
qed

lemma run_targets_distinct:
  assumes "\<forall>rel \<in> set tree. rel \<noteq> [] \<and> (\<forall>p \<in> set rel. clean_part p)"
    and "raised (main cfg w tree g) = None"
  shows "distinct (map wc_output (wrap_calls (main cfg w tree g)))"
proof -
  let ?raw = "raw_cohort_dir cfg"
  let ?h = "\<lambda>f. map wc_output (file_calls cfg w f)"
  let ?out0 = "\<lambda>d. \<lparr>warnings = skip_warnings d, made_dirs = [], wrap_calls = [], raised = None\<rparr>"
  from discover_props [of ?raw tree] obtain d where d: "discover ?raw tree = Inr d"
    and dist: "distinct (map (get_shard_prefix ?raw) (input_files_to_subshard d))"
    by blast
  from main_unfold [of cfg tree w g] d obtain files g' where
    m: "mset files = mset (input_files_to_subshard d)"
    and r: "main cfg w tree g = process_files cfg w files g' (?out0 d)"
    by auto
  from m have s: "set files = set (input_files_to_subshard d)" by (rule mset_eq_setD)
  have rel: "\<exists>rel. f = ?raw @ rel \<and> rel \<noteq> [] \<and> (\<forall>p \<in> set rel. clean_part p)"
    if "f \<in> set files" for f
  proof -
    from that s accepted_candidates [OF d] have "f \<in> set (candidates ?raw tree)" by blast
    then obtain rel where "rel \<in> set tree" "f = ?raw @ rel" by (rule candidates_rel)
    with assms(1) show ?thesis by blast
  qed
  from dist have inj: "inj_on (get_shard_prefix ?raw) (set files)" and df: "distinct files"
    using m by (simp_all add: distinct_map s mset_eq_imp_distinct_iff [OF m])
  have each: "\<forall>f \<in> set files. distinct (?h f)"
    using rel file_outputs_distinct by blast
  have apart: "\<forall>f \<in> set files. \<forall>g \<in> set files. f \<noteq> g \<longrightarrow> set (?h f) \<inter> set (?h g) = {}"
  proof (intro ballI impI)
    fix f1 f2
    assume f1: "f1 \<in> set files" and f2: "f2 \<in> set files" and ne: "f1 \<noteq> f2"
    from rel [OF f1] obtain rel1 where r1: "f1 = ?raw @ rel1" "rel1 \<noteq> []" "\<forall>p \<in> set rel1. clean_part p"
      by blast
    from rel [OF f2] obtain rel2 where r2: "f2 = ?raw @ rel2" "rel2 \<noteq> []" "\<forall>p \<in> set rel2. clean_part p"
      by blast
    show "set (?h f1) \<inter> set (?h f2) = {}"
    proof (rule ccontr)
      assume "set (?h f1) \<inter> set (?h f2) \<noteq> {}"
      then obtain c1 c2 where "c1 \<in> set (file_calls cfg w f1)" "c2 \<in> set (file_calls cfg w f2)"
        "wc_output c1 = wc_output c2"
        by auto
      then have "get_shard_prefix ?raw f1 = get_shard_prefix ?raw f2"
        unfolding r1(1) r2(1)
        by (intro file_outputs_identity [OF r1(2,3) r2(2,3)])
      with inj f1 f2 ne show False by (auto dest: inj_onD)
    qed
  qed
  from distinct_concat_map [OF df each apart]
  have "distinct (map wc_output (concat (map (file_calls cfg w) files)))"
    by (simp add: map_concat comp_def)
  moreover
  have ok: "\<forall>f \<in> set files. file_ok cfg w f"
    using assms(2) process_files_fail [of files cfg w g' "?out0 d"] unfolding r by blast
  have "raised (?out0 d) = None" by simp
  from process_files_ok [OF ok this, of g', folded r]
  have "mset (map wc_output (wrap_calls (main cfg w tree g)))
          = mset (map wc_output (concat (map (file_calls cfg w) files)))"
    by (metis add.left_neutral mset.simps(1) mset_map outcome.select_convs(3))
  ultimately show ?thesis
    by (metis mset_eq_imp_distinct_iff)
qed

text \<open>
  C4, for the runs that end without an exception. If the run under one random sequence raises
  nothing, then the run under any other raises nothing either, and both issue the same wrapper
  calls, each as often: the same output targets from the same input files and row chunks, hence
  with the same content, and the same warnings. When the parts of the tree's paths are clean, no
  two wrapper calls of such a run have the same output target, so each target has one content.
\<close>

theorem schedule_independent:
  assumes "raised (main cfg w tree g1) = None"
  shows "raised (main cfg w tree g2) = None
       \<and> mset (wrap_calls (main cfg w tree g2)) = mset (wrap_calls (main cfg w tree g1))
       \<and> mset (map (\<lambda>c. (wc_output c, target_content w c)) (wrap_calls (main cfg w tree g2)))
           = mset (map (\<lambda>c. (wc_output c, target_content w c)) (wrap_calls (main cfg w tree g1)))
       \<and> mset (warnings (main cfg w tree g2)) = mset (warnings (main cfg w tree g1))
       \<and> ((\<forall>rel \<in> set tree. rel \<noteq> [] \<and> (\<forall>p \<in> set rel. clean_part p)) \<longrightarrow>
            distinct (map wc_output (wrap_calls (main cfg w tree g1)))
          \<and> distinct (map wc_output (wrap_calls (main cfg w tree g2))))"
proof -
  from main_unfold [of cfg tree w g1] obtain d files1 h1 where
    d: "discover (raw_cohort_dir cfg) tree = Inr d"
    and m1: "mset files1 = mset (input_files_to_subshard d)"
    and r1: "main cfg w tree g1 = process_files cfg w files1 h1
               \<lparr>warnings = skip_warnings d, made_dirs = [], wrap_calls = [], raised = None\<rparr>"
    by blast
  from main_unfold [of cfg tree w g2] d obtain files2 h2 where
    m2: "mset files2 = mset (input_files_to_subshard d)"
    and r2: "main cfg w tree g2 = process_files cfg w files2 h2
               \<lparr>warnings = skip_warnings d, made_dirs = [], wrap_calls = [], raised = None\<rparr>"
    by auto
  let ?out0 = "\<lparr>warnings = skip_warnings d, made_dirs = [], wrap_calls = [], raised = None\<rparr>"
  have ok1: "\<forall>f \<in> set files1. file_ok cfg w f"
    using assms process_files_fail [of files1 cfg w h1 ?out0] unfolding r1 by blast
  from m1 m2 have m: "mset files2 = mset files1" by simp
  then have "set files2 = set files1" by (rule mset_eq_setD)
  with ok1 have ok2: "\<forall>f \<in> set files2. file_ok cfg w f" by simp
  have o0: "raised ?out0 = None" by simp
  note p1 = process_files_ok [OF ok1 o0, of h1, folded r1]
  note p2 = process_files_ok [OF ok2 o0, of h2, folded r2]
  have c: "mset (wrap_calls (main cfg w tree g2)) = mset (wrap_calls (main cfg w tree g1))"
    using p1 p2 mset_concat_map_cong [OF m, of "file_calls cfg w"] by simp
  have "mset (warnings (main cfg w tree g2)) = mset (warnings (main cfg w tree g1))"
    using p1 p2 mset_concat_map_cong [OF m, of "\<lambda>f. fst (scan_with_row_idx w f)"] by simp
  moreover have "mset (map (\<lambda>c. (wc_output c, target_content w c)) (wrap_calls (main cfg w tree g2)))
           = mset (map (\<lambda>c. (wc_output c, target_content w c)) (wrap_calls (main cfg w tree g1)))"
    using c by (metis mset_map)
  moreover from p2 have r2n: "raised (main cfg w tree g2) = None" by simp
  moreover have "(\<forall>rel \<in> set tree. rel \<noteq> [] \<and> (\<forall>p \<in> set rel. clean_part p)) \<longrightarrow>
            distinct (map wc_output (wrap_calls (main cfg w tree g1)))
          \<and> distinct (map wc_output (wrap_calls (main cfg w tree g2)))"
    using run_targets_distinct [OF _ assms] run_targets_distinct [OF _ r2n] by blast
  ultimately show ?thesis
    using c by blast
qed

text \<open>
  The identity as the specification words it: the path relative to the raw root with the format
  suffix of the file name removed.
\<close>

definition strip_format_suffix :: "string \<Rightarrow> string" where
  "strip_format_suffix name =
     (if endswith name ''.parquet'' then take (length name - 8) name
      else if endswith name ''.csv.gz'' then take (length name - 7) name
      else if endswith name ''.csv'' then take (length name - 4) name
      else name)"

definition spec_identity :: "path \<Rightarrow> path" where
  "spec_identity rel = butlast rel @ [strip_format_suffix (last rel)]"

section \<open>Examples\<close>

definition example_cfg :: "int \<Rightarrow> config" where
  "example_cfg chunksize =
     \<lparr>raw_cohort_dir = [''/'', ''raw''], MEDS_cohort_dir = [''/'', ''out''],
      row_chunksize = chunksize, do_overwrite = False\<rparr>"

text \<open>A world with a parquet file of three rows, a parquet file without rows, a CSV file of
  two rows, and nothing else that a backend can decode.\<close>

definition example_world :: world where
  "example_world =
     (\<lambda>r p. if p = [''/'', ''raw'', ''a.parquet''] then Inr [(''x'', [CInt 5, CInt 6, CInt 7])]
            else if p = [''/'', ''raw'', ''e.parquet''] then Inr [(''x'', [])]
            else if p = [''/'', ''raw'', ''data.2020.csv''] then Inr [(''x'', [CInt 1, CInt 2])]
            else Inl (ReadError ''cannot decode''))"

lemmas run_eval = main_def process_file_def shuffle_def randbelow_def scan_with_row_idx_def
  path_suffix_def lower_def lower_char_def row_count_def collect_def scan_def read_frame_def
  with_row_index_def height_def ROW_IDX_NAME_def py_range_def range_length_def chunk_end_def
  example_cfg_def example_world_def

lemmas chunk_name_eval = chunk_name_def str_int_def str_nat.simps digit_char_def

lemma example_chunk_names:
  "chunk_name 0 2 = ''[0-2).parquet''" "chunk_name 2 3 = ''[2-3).parquet''"
  by (simp_all add: chunk_name_eval)

lemma example_discover:
  "discover [''/'', ''raw''] [[''a.parquet''], [''b.parquet'']]
     = Inr \<lparr>seen_files = {''a'', ''b''},
            input_files_to_subshard =
              [[''/'', ''raw'', ''a.parquet''], [''/'', ''raw'', ''b.parquet'']],
            skip_warnings = []\<rparr>"
  "discover [''/'', ''raw''] [[''a.parquet''], [''e.parquet'']]
     = Inr \<lparr>seen_files = {''a'', ''e''},
            input_files_to_subshard =
              [[''/'', ''raw'', ''a.parquet''], [''/'', ''raw'', ''e.parquet'']],
            skip_warnings = []\<rparr>"
  by (simp_all add: discovery_eval insert_commute)

text \<open>
  C4 as it is stated fails. The tree holds \<^verbatim>\<open>a.parquet\<close>, which has three rows, and
  \<^verbatim>\<open>b.parquet\<close>, which the backend cannot decode. When the shuffle keeps \<^verbatim>\<open>a.parquet\<close> first,
  its two chunks are dispatched before the run ends with the reader's error; when the shuffle puts
  \<^verbatim>\<open>b.parquet\<close> first, the run ends at once and dispatches nothing.
\<close>

theorem schedule_changes_targets_counterexample:
  "map wc_output (wrap_calls (main (example_cfg 2) example_world
        [[''a.parquet''], [''b.parquet'']] (\<lambda>k. 1)))
     = [[''/'', ''out'', ''sub_sharded'', ''a'', ''[0-2).parquet''],
        [''/'', ''out'', ''sub_sharded'', ''a'', ''[2-3).parquet'']]
   \<and> map wc_output (wrap_calls (main (example_cfg 2) example_world
        [[''a.parquet''], [''b.parquet'']] (\<lambda>k. 0))) = []
   \<and> set (map wc_output (wrap_calls (main (example_cfg 2) example_world
          [[''a.parquet''], [''b.parquet'']] (\<lambda>k. 1))))
       \<noteq> set (map wc_output (wrap_calls (main (example_cfg 2) example_world
          [[''a.parquet''], [''b.parquet'']] (\<lambda>k. 0))))"
  using example_discover(1)
  by (simp add: run_eval discovery_eval upt_rec example_chunk_names)

theorem schedule_independent_witness:
  "raised (main (example_cfg 2) example_world [[''a.parquet''], [''e.parquet'']] (\<lambda>k. 1)) = None
   \<and> raised (main (example_cfg 2) example_world [[''a.parquet''], [''e.parquet'']] (\<lambda>k. 0)) = None
   \<and> map wc_output (wrap_calls (main (example_cfg 2) example_world
        [[''a.parquet''], [''e.parquet'']] (\<lambda>k. 1)))
       = [[''/'', ''out'', ''sub_sharded'', ''a'', ''[0-2).parquet''],
          [''/'', ''out'', ''sub_sharded'', ''a'', ''[2-3).parquet'']]
   \<and> map wc_output (wrap_calls (main (example_cfg 2) example_world
        [[''a.parquet''], [''e.parquet'']] (\<lambda>k. 0)))
       = [[''/'', ''out'', ''sub_sharded'', ''a'', ''[2-3).parquet''],
          [''/'', ''out'', ''sub_sharded'', ''a'', ''[0-2).parquet'']]
   \<and> mset (wrap_calls (main (example_cfg 2) example_world
          [[''a.parquet''], [''e.parquet'']] (\<lambda>k. 0)))
       = mset (wrap_calls (main (example_cfg 2) example_world
          [[''a.parquet''], [''e.parquet'']] (\<lambda>k. 1)))
   \<and> clean_part ''a.parquet'' \<and> clean_part ''e.parquet''
   \<and> distinct (map wc_output (wrap_calls (main (example_cfg 2) example_world
          [[''a.parquet''], [''e.parquet'']] (\<lambda>k. 0))))"
proof -
  have cl: "clean_part ''a.parquet''" "clean_part ''e.parquet''"
    by (simp_all add: clean_part_def)
  have r1: "raised (main (example_cfg 2) example_world
              [[''a.parquet''], [''e.parquet'']] (\<lambda>k. 1)) = None"
    using example_discover(2)
    by (simp add: run_eval discovery_eval upt_rec example_chunk_names)
  have o1: "map wc_output (wrap_calls (main (example_cfg 2) example_world
        [[''a.parquet''], [''e.parquet'']] (\<lambda>k. 1)))
       = [[''/'', ''out'', ''sub_sharded'', ''a'', ''[0-2).parquet''],
          [''/'', ''out'', ''sub_sharded'', ''a'', ''[2-3).parquet'']]"
    using example_discover(2)
    by (simp add: run_eval discovery_eval upt_rec example_chunk_names)
  have o0: "map wc_output (wrap_calls (main (example_cfg 2) example_world
        [[''a.parquet''], [''e.parquet'']] (\<lambda>k. 0)))
       = [[''/'', ''out'', ''sub_sharded'', ''a'', ''[2-3).parquet''],
          [''/'', ''out'', ''sub_sharded'', ''a'', ''[0-2).parquet'']]"
    using example_discover(2)
    by (simp add: run_eval discovery_eval upt_rec example_chunk_names)
  from schedule_independent [OF r1, of "\<lambda>k. 0"] r1 o1 o0 cl show ?thesis
    by simp
qed

lemma example_scans:
  "get_shard_prefix [''/'', ''raw''] [''/'', ''raw'', ''a.parquet''] = Inr ''a''"
  "get_shard_prefix [''/'', ''raw''] [''/'', ''raw'', ''e.parquet''] = Inr ''e''"
  "scan_with_row_idx example_world [''/'', ''raw'', ''a.parquet'']
     = ([], Inr (scan ScanParquet [''/'', ''raw'', ''a.parquet''] ROW_IDX_NAME))"
  "scan_with_row_idx example_world [''/'', ''raw'', ''e.parquet'']
     = ([], Inr (scan ScanParquet [''/'', ''raw'', ''e.parquet''] ROW_IDX_NAME))"
  "row_count example_world (scan ScanParquet [''/'', ''raw'', ''a.parquet''] ROW_IDX_NAME) = Inr 3"
  "row_count example_world (scan ScanParquet [''/'', ''raw'', ''e.parquet''] ROW_IDX_NAME) = Inr 0"
  by (simp_all add: discovery_eval scan_with_row_idx_def path_suffix_def lower_def lower_char_def
      row_count_def collect_def scan_def read_frame_def with_row_index_def height_def
      ROW_IDX_NAME_def example_world_def)

theorem zero_rows_zero_work_witness:
  "get_shard_prefix (raw_cohort_dir (example_cfg 2)) [''/'', ''raw'', ''e.parquet''] = Inr ''e''
   \<and> scan_with_row_idx example_world [''/'', ''raw'', ''e.parquet'']
       = ([], Inr (scan ScanParquet [''/'', ''raw'', ''e.parquet''] ROW_IDX_NAME))
   \<and> row_count example_world (scan ScanParquet [''/'', ''raw'', ''e.parquet''] ROW_IDX_NAME) = Inr 0
   \<and> row_chunksize (example_cfg 2) \<noteq> 0
   \<and> wrap_calls (fst (process_file (example_cfg 2) example_world [''/'', ''raw'', ''e.parquet'']
         (\<lambda>k. 0) \<lparr>warnings = [], made_dirs = [], wrap_calls = [], raised = None\<rparr>)) = []
   \<and> raised (fst (process_file (example_cfg 2) example_world [''/'', ''raw'', ''e.parquet'']
         (\<lambda>k. 0) \<lparr>warnings = [], made_dirs = [], wrap_calls = [], raised = None\<rparr>)) = None
   \<and> map wc_input (wrap_calls (main (example_cfg 2) example_world
         [[''a.parquet''], [''e.parquet'']] (\<lambda>k. 0)))
       = [[''/'', ''raw'', ''a.parquet''], [''/'', ''raw'', ''a.parquet'']]"
proof -
  have p: "get_shard_prefix (raw_cohort_dir (example_cfg 2)) [''/'', ''raw'', ''e.parquet'']
             = Inr ''e''"
    by (simp add: example_cfg_def example_scans)
  have c: "row_chunksize (example_cfg 2) \<noteq> 0"
    by (simp add: example_cfg_def)
  have m: "map wc_input (wrap_calls (main (example_cfg 2) example_world
         [[''a.parquet''], [''e.parquet'']] (\<lambda>k. 0)))
       = [[''/'', ''raw'', ''a.parquet''], [''/'', ''raw'', ''a.parquet'']]"
    using example_discover(2)
    by (simp add: run_eval discovery_eval upt_rec example_chunk_names)
  from zero_rows_zero_work [OF p example_scans(4) example_scans(6) c,
      of "\<lambda>k. 0" "\<lparr>warnings = [], made_dirs = [], wrap_calls = [], raised = None\<rparr>"]
    p example_scans(4) example_scans(6) c m
  show ?thesis by simp
qed

theorem chunksize_never_validated_witness:
  "get_shard_prefix (raw_cohort_dir (example_cfg 0)) [''/'', ''raw'', ''a.parquet''] = Inr ''a''
   \<and> get_shard_prefix (raw_cohort_dir (example_cfg (- 2))) [''/'', ''raw'', ''a.parquet'']
       = Inr ''a''
   \<and> scan_with_row_idx example_world [''/'', ''raw'', ''a.parquet'']
       = ([], Inr (scan ScanParquet [''/'', ''raw'', ''a.parquet''] ROW_IDX_NAME))
   \<and> row_count example_world (scan ScanParquet [''/'', ''raw'', ''a.parquet''] ROW_IDX_NAME) = Inr 3
   \<and> (0::int) < 3
   \<and> row_chunksize (example_cfg 0) = 0
   \<and> raised (fst (process_file (example_cfg 0) example_world [''/'', ''raw'', ''a.parquet'']
         (\<lambda>k. 0) \<lparr>warnings = [], made_dirs = [], wrap_calls = [], raised = None\<rparr>))
       = Some (ValueError ''range() arg 3 must not be zero'')
   \<and> row_chunksize (example_cfg (- 2)) < 0
   \<and> raised (fst (process_file (example_cfg (- 2)) example_world [''/'', ''raw'', ''a.parquet'']
         (\<lambda>k. 0) \<lparr>warnings = [], made_dirs = [], wrap_calls = [], raised = None\<rparr>)) = None
   \<and> wrap_calls (fst (process_file (example_cfg (- 2)) example_world
         [''/'', ''raw'', ''a.parquet'']
         (\<lambda>k. 0) \<lparr>warnings = [], made_dirs = [], wrap_calls = [], raised = None\<rparr>)) = []
   \<and> warnings (fst (process_file (example_cfg (- 2)) example_world
         [''/'', ''raw'', ''a.parquet'']
         (\<lambda>k. 0) \<lparr>warnings = [], made_dirs = [], wrap_calls = [], raised = None\<rparr>)) = []"
proof -
  have p0: "get_shard_prefix (raw_cohort_dir (example_cfg 0)) [''/'', ''raw'', ''a.parquet'']
             = Inr ''a''"
    and pn: "get_shard_prefix (raw_cohort_dir (example_cfg (- 2))) [''/'', ''raw'', ''a.parquet'']
             = Inr ''a''"
    by (simp_all add: example_cfg_def example_scans)
  have c: "row_chunksize (example_cfg 0) = 0" "row_chunksize (example_cfg (- 2)) < 0"
    by (simp_all add: example_cfg_def)
  have r: "(0::int) < 3" by simp
  from chunksize_never_validated [OF p0 example_scans(3) example_scans(5) r,
      of "\<lambda>k. 0" "\<lparr>warnings = [], made_dirs = [], wrap_calls = [], raised = None\<rparr>"]
    chunksize_never_validated [OF pn example_scans(3) example_scans(5) r,
      of "\<lambda>k. 0" "\<lparr>warnings = [], made_dirs = [], wrap_calls = [], raised = None\<rparr>"]
    p0 pn example_scans(3) example_scans(5) c
  show ?thesis by simp
qed

lemma example_discover_csv:
  "discover [''/'', ''raw''] [[''data.2020.csv'']]
     = Inr \<lparr>seen_files = {''data''},
            input_files_to_subshard = [[''/'', ''raw'', ''data.2020.csv'']],
            skip_warnings = []\<rparr>"
  by (simp add: discovery_eval)

text \<open>
  C6 as it is stated fails: the file \<^verbatim>\<open>data.2020.csv\<close> has the extension \<^verbatim>\<open>.csv\<close>, and its
  chunk is written under \<^verbatim>\<open>sub_sharded/data\<close>, not under \<^verbatim>\<open>sub_sharded/data.2020\<close>.
\<close>

theorem output_path_extension_counterexample:
  "map wc_output (wrap_calls (main (example_cfg 2) example_world [[''data.2020.csv'']] (\<lambda>k. 1)))
     = [[''/'', ''out'', ''sub_sharded'', ''data'', ''[0-2).parquet'']]
   \<and> MEDS_cohort_dir (example_cfg 2) @ [''sub_sharded''] @ spec_identity [''data.2020.csv'']
         @ [chunk_name 0 2]
       = [''/'', ''out'', ''sub_sharded'', ''data.2020'', ''[0-2).parquet'']
   \<and> map wc_output (wrap_calls (main (example_cfg 2) example_world [[''data.2020.csv'']] (\<lambda>k. 1)))
       \<noteq> [MEDS_cohort_dir (example_cfg 2) @ [''sub_sharded''] @ spec_identity [''data.2020.csv'']
            @ [chunk_name 0 2]]"
proof -
  have a: "map wc_output (wrap_calls (main (example_cfg 2) example_world
              [[''data.2020.csv'']] (\<lambda>k. 1)))
     = [[''/'', ''out'', ''sub_sharded'', ''data'', ''[0-2).parquet'']]"
    using example_discover_csv
    by (simp add: run_eval discovery_eval upt_rec example_chunk_names)
  have b: "MEDS_cohort_dir (example_cfg 2) @ [''sub_sharded''] @ spec_identity [''data.2020.csv'']
         @ [chunk_name 0 2]
       = [''/'', ''out'', ''sub_sharded'', ''data.2020'', ''[0-2).parquet'']"
    by (simp add: example_cfg_def spec_identity_def strip_format_suffix_def endswith_def
        example_chunk_names)
  show ?thesis unfolding a b by simp
qed

theorem output_path_layout_witness:
  "clean_part ''a.parquet''
   \<and> shard_dir [''a.parquet''] = [''a'']
   \<and> wrap_calls (main (example_cfg 2) example_world [[''a.parquet'']] (\<lambda>k. 1))
       = [\<lparr>wc_input = [''/'', ''raw'', ''a.parquet''],
            wc_output = [''/'', ''out'', ''sub_sharded'', ''a'', ''[0-2).parquet''],
            wc_start = 0, wc_end = 2, wc_overwrite = False\<rparr>,
          \<lparr>wc_input = [''/'', ''raw'', ''a.parquet''],
            wc_output = [''/'', ''out'', ''sub_sharded'', ''a'', ''[2-3).parquet''],
            wc_start = 2, wc_end = 3, wc_overwrite = False\<rparr>]"
proof -
  have c: "clean_part ''a.parquet''"
    by (simp add: clean_part_def)
  then have h: "\<forall>rel \<in> set [[''a.parquet'']]. rel \<noteq> [] \<and> (\<forall>p \<in> set rel. clean_part p)"
    by simp
  have s: "shard_dir [''a.parquet''] = [''a'']"
    by (simp add: shard_dir_def first_part_def)
  have d: "discover [''/'', ''raw''] [[''a.parquet'']]
     = Inr \<lparr>seen_files = {''a''},
            input_files_to_subshard = [[''/'', ''raw'', ''a.parquet'']],
            skip_warnings = []\<rparr>"
    by (simp add: discovery_eval)
  have m: "wrap_calls (main (example_cfg 2) example_world [[''a.parquet'']] (\<lambda>k. 1))
       = [\<lparr>wc_input = [''/'', ''raw'', ''a.parquet''],
            wc_output = [''/'', ''out'', ''sub_sharded'', ''a'', ''[0-2).parquet''],
            wc_start = 0, wc_end = 2, wc_overwrite = False\<rparr>,
          \<lparr>wc_input = [''/'', ''raw'', ''a.parquet''],
            wc_output = [''/'', ''out'', ''sub_sharded'', ''a'', ''[2-3).parquet''],
            wc_start = 2, wc_end = 3, wc_overwrite = False\<rparr>]"
    using d by (simp add: run_eval discovery_eval upt_rec example_chunk_names)
  from output_path_layout [OF h, of "example_cfg 2" example_world "\<lambda>k. 1"] c s m
  show ?thesis by simp
qed

end
